theory Spec2Isabelle
  imports Main "HOL-Library.Char_ord" "HOL-Library.List_Lexorder" "HOL-Library.Sublist"
    "HOL-Library.Multiset"
begin

section \<open>Go values used by package template\<close>

text \<open>
  A Go string and a Go byte slice are both modelled as \<open>string\<close> (a list of bytes, one
  \<open>char\<close> each); a nil slice is the empty list. With \<open>Char_ord\<close> and \<open>List_Lexorder\<close> the
  order \<open><\<close> on \<open>string\<close> is the byte-wise lexicographic order of Go's string comparison.
\<close>

subsection \<open>Errors and panics\<close>

text \<open>
  The sentinel errors of the package (\<open>ErrInvalidFile\<close>, \<open>ErrInvalidCSV\<close>,
  \<open>ErrInvalidTemplate\<close>, \<open>errNoToken\<close>), \<open>io.EOF\<close>, and \<open>Foreign\<close> for sentinels of
  other packages. An error value is the list of sentinels it wraps (what \<open>errors.Is\<close>
  inspects) together with its message (what \<open>Error()\<close> prints).
\<close>

datatype sentinel = ErrInvalidFile | ErrInvalidCSV | ErrInvalidTemplate | errNoToken | io_EOF
  | Foreign string

datatype go_error = Err (wraps: "sentinel list") (Error: string)

fun sentinel_text :: "sentinel \<Rightarrow> string" where
  "sentinel_text ErrInvalidFile = ''invalid file''"
| "sentinel_text ErrInvalidCSV = ''invalid csv''"
| "sentinel_text ErrInvalidTemplate = ''invalid template''"
| "sentinel_text errNoToken = ''no token found''"
| "sentinel_text io_EOF = ''EOF''"
| "sentinel_text (Foreign m) = m"

definition sentinel_error :: "sentinel \<Rightarrow> go_error" where
  "sentinel_error s = Err [s] (sentinel_text s)"

definition errors_Is :: "go_error \<Rightarrow> sentinel \<Rightarrow> bool" where
  "errors_Is e s = (s \<in> set (wraps e))"

text \<open>
  \<open>fmt.Errorf("%w" ++ text, s)\<close> for a sentinel \<open>s\<close>, and
  \<open>fmt.Errorf("%w" ++ text ++ "%w" ++ text', s, e)\<close> for a sentinel and an error.
\<close>

definition Errorf_w :: "sentinel \<Rightarrow> string \<Rightarrow> go_error" where
  "Errorf_w s txt = Err [s] (sentinel_text s @ txt)"

definition Errorf_w_w :: "sentinel \<Rightarrow> string \<Rightarrow> go_error \<Rightarrow> string \<Rightarrow> go_error" where
  "Errorf_w_w s txt e txt' = Err (s # wraps e) (sentinel_text s @ txt @ Error e @ txt')"

text \<open>A run-time panic: \<open>index out of range [i] with length n\<close>.\<close>

datatype panic = index_out_of_range int nat

text \<open>
  The outcome of a call that returns \<open>(value, error)\<close>: it panics, it returns
  \<open>(nil, err)\<close> (\<open>Fails err\<close>), or it returns \<open>(v, nil)\<close> (\<open>Returns v\<close>). A function
  with a plain result only panics or returns.
\<close>

datatype 'a outcome = Panics panic | Fails go_error | Returns 'a

subsection \<open>Library functions: package sort\<close>

text \<open>
  \<open>sort.Search(n, f)\<close>, the binary search of the standard library:
  \<^verbatim>\<open>
  i, j := 0, n
  for i < j {
      h := int(uint(i+j) >> 1)
      if !f(h) { i = h + 1 } else { j = h }
  }
  return i
  \<close>
\<close>

function sort_Search_loop :: "(nat \<Rightarrow> bool) \<Rightarrow> nat \<Rightarrow> nat \<Rightarrow> nat" where
  "sort_Search_loop f i j =
     (if i < j then
        (let h = (i + j) div 2 in
         if \<not> f h then sort_Search_loop f (h + 1) j else sort_Search_loop f i h)
      else i)"
  by pat_completeness auto
termination
  by (relation "measure (\<lambda>(f, i, j). j - i)") auto

declare sort_Search_loop.simps [simp del]

definition sort_Search :: "nat \<Rightarrow> (nat \<Rightarrow> bool) \<Rightarrow> nat" where
  "sort_Search n f = sort_Search_loop f 0 n"

text \<open>
  \<open>sort.Slice(xs, less)\<close> sorts \<open>xs\<close> in place by \<open>less\<close>; the sort is not stable. On a
  slice of at most twelve elements the library runs \<open>insertionSortLessFunc\<close>, modelled
  here: each element in turn moves left while it is \<open>less\<close> than its left neighbour. On
  a longer slice it runs a pattern-defeating quicksort, which is not modelled: it is the
  parameter \<open>pdqsort\<close> of \<open>sort_Slice\<close> and of every function that sorts, and
  \<open>pdqsort less xs\<close> stands for the slice it leaves.
\<close>

fun sort_insert :: "('a \<Rightarrow> 'a \<Rightarrow> bool) \<Rightarrow> 'a \<Rightarrow> 'a list \<Rightarrow> 'a list" where
  "sort_insert lt x [] = [x]"
| "sort_insert lt x (y # ys) =
     (if lt x y then x # y # ys else y # sort_insert lt x ys)"

definition insertionSortLessFunc :: "('a \<Rightarrow> 'a \<Rightarrow> bool) \<Rightarrow> 'a list \<Rightarrow> 'a list" where
  "insertionSortLessFunc lt xs = foldl (\<lambda>acc x. sort_insert lt x acc) [] xs"

definition sort_Slice ::
  "(('a \<Rightarrow> 'a \<Rightarrow> bool) \<Rightarrow> 'a list \<Rightarrow> 'a list) \<Rightarrow> ('a \<Rightarrow> 'a \<Rightarrow> bool) \<Rightarrow> 'a list \<Rightarrow> 'a list" where
  "sort_Slice pdqsort lt xs =
     (if length xs \<le> 12 then insertionSortLessFunc lt xs else pdqsort lt xs)"

section \<open>The header index\<close>

record header_field =
  key :: string
  index :: int

text \<open>The type of the parameter \<open>pdqsort\<close> where the index is sorted.\<close>

type_synonym sorter =
  "(header_field \<Rightarrow> header_field \<Rightarrow> bool) \<Rightarrow> header_field list \<Rightarrow> header_field list"

text \<open>\<open>sorted_header\<close> is \<open>None\<close> while the Go field is nil (the index is not built yet).\<close>

record CSV_HEADER =
  header :: "string list"
  sorted_header :: "header_field list option"

definition Len :: "CSV_HEADER \<Rightarrow> int" where
  "Len c = int (length (header c))"

text \<open>The loop \<open>for index, key := range c.header\<close> that fills the index.\<close>

definition header_fields :: "string list \<Rightarrow> header_field list" where
  "header_fields h = map (\<lambda>(k, i). \<lparr>key = k, index = int i\<rparr>) (zip h [0..<length h])"

text \<open>
  \<open>FindKeyIndex\<close> builds the sorted index on first use and stores it in the receiver, so
  the model returns the receiver next to the result. The element read
  \<open>c.sorted_header[i]\<close> in the condition panics when \<open>i\<close> is not below the length. The
  first argument is the parameter of \<open>sort_Slice\<close>; \<open>AdaptTemplateToCSV\<close> and
  \<open>NewTemplate\<close> pass it on.
\<close>

definition FindKeyIndex :: "sorter \<Rightarrow> CSV_HEADER \<Rightarrow> string \<Rightarrow> int outcome \<times> CSV_HEADER" where
  "FindKeyIndex pdqsort c k =
     (let sh = (case sorted_header c of
                  None \<Rightarrow>
                    sort_Slice pdqsort (\<lambda>a b. key a < key b) (header_fields (header c))
                | Some s \<Rightarrow> s);
          c' = c\<lparr>sorted_header := Some sh\<rparr>;
          i = int (sort_Search (length sh) (\<lambda>i. key (sh ! i) \<ge> k))
      in if i = -1 then (Returns (-1), c')
         else if i < 0 \<or> i \<ge> int (length sh) then
           (Panics (index_out_of_range i (length sh)), c')
         else if key (sh ! nat i) \<noteq> k then (Returns (-1), c')
         else (Returns (index (sh ! nat i)), c'))"

section \<open>Library functions: package strings and fmt\<close>

text \<open>
  \<open>strings.Trim(s, cutset)\<close> for a cutset of ASCII bytes removes the leading and the
  trailing bytes of \<open>s\<close> that are in the cutset.
\<close>

definition strings_Trim :: "string \<Rightarrow> string \<Rightarrow> string" where
  "strings_Trim s cutset =
     rev (dropWhile (\<lambda>c. c \<in> set cutset) (rev (dropWhile (\<lambda>c. c \<in> set cutset) s)))"

text \<open>
  \<open>strings.TrimSpace\<close> removes leading and trailing white space as \<open>unicode.IsSpace\<close>
  defines it. \<open>space_runes\<close> lists the UTF-8 encodings of those code points: tab, line
  feed, vertical tab, form feed, carriage return, space, U+0085, U+00A0, U+1680,
  U+2000 to U+200A, U+2028, U+2029, U+202F, U+205F and U+3000.
\<close>

definition space_runes :: "string list" where
  "space_runes =
     [[CHR 0x09], [CHR 0x0A], [CHR 0x0B], [CHR 0x0C], [CHR 0x0D], [CHR 0x20],
      [CHR 0xC2, CHR 0x85], [CHR 0xC2, CHR 0xA0], [CHR 0xE1, CHR 0x9A, CHR 0x80],
      [CHR 0xE2, CHR 0x80, CHR 0x80], [CHR 0xE2, CHR 0x80, CHR 0x81],
      [CHR 0xE2, CHR 0x80, CHR 0x82], [CHR 0xE2, CHR 0x80, CHR 0x83],
      [CHR 0xE2, CHR 0x80, CHR 0x84], [CHR 0xE2, CHR 0x80, CHR 0x85],
      [CHR 0xE2, CHR 0x80, CHR 0x86], [CHR 0xE2, CHR 0x80, CHR 0x87],
      [CHR 0xE2, CHR 0x80, CHR 0x88], [CHR 0xE2, CHR 0x80, CHR 0x89],
      [CHR 0xE2, CHR 0x80, CHR 0x8A], [CHR 0xE2, CHR 0x80, CHR 0xA8],
      [CHR 0xE2, CHR 0x80, CHR 0xA9], [CHR 0xE2, CHR 0x80, CHR 0xAF],
      [CHR 0xE2, CHR 0x81, CHR 0x9F], [CHR 0xE3, CHR 0x80, CHR 0x80]]"

function trim_left_runes :: "string list \<Rightarrow> string \<Rightarrow> string" where
  "trim_left_runes ws s =
     (case find (\<lambda>w. w \<noteq> [] \<and> prefix w s) ws of
        None \<Rightarrow> s
      | Some w \<Rightarrow> trim_left_runes ws (drop (length w) s))"
  by pat_completeness auto
termination
proof (relation "measure (\<lambda>(ws, s). length s)")
  show "wf (measure (\<lambda>(ws :: string list, s :: string). length s))"
    by simp
next
  fix ws :: "string list" and s w :: string
  assume "find (\<lambda>w. w \<noteq> [] \<and> prefix w s) ws = Some w"
  then have "w \<noteq> []" and "prefix w s"
    by (auto simp: find_Some_iff)
  then have "s \<noteq> []"
    by auto
  with \<open>w \<noteq> []\<close> show "((ws, drop (length w) s), (ws, s)) \<in> measure (\<lambda>(ws, s). length s)"
    by simp
qed

declare trim_left_runes.simps [simp del]

definition strings_TrimSpace :: "string \<Rightarrow> string" where
  "strings_TrimSpace s =
     rev (trim_left_runes (map rev space_runes) (rev (trim_left_runes space_runes s)))"

text \<open>The verb \<open>%d\<close> of \<open>fmt\<close>: a decimal numeral, with a minus sign when negative.\<close>

fun decimal :: "nat \<Rightarrow> string" where
  "decimal n =
     (if n < 10 then [''0123456789'' ! n]
      else decimal (n div 10) @ [''0123456789'' ! (n mod 10)])"

declare decimal.simps [simp del]

definition Sprint_d :: "int \<Rightarrow> string" where
  "Sprint_d i = (if i < 0 then CHR ''-'' # decimal (nat (- i)) else decimal (nat i))"

section \<open>Files\<close>

text \<open>The field \<open>b\<close> of \<open>FILE\<close> is named \<open>file_b\<close>.\<close>

record FILE =
  name :: string
  mimetype :: string
  file_b :: string

definition NewFile :: "string \<Rightarrow> string \<Rightarrow> string \<Rightarrow> FILE outcome" where
  "NewFile nm mt bs =
     (let nm = strings_TrimSpace nm in
      if length nm = 0 then Fails (Errorf_w ErrInvalidFile '': empty filename'')
      else
        (let mt = strings_TrimSpace mt in
         if length mt = 0 then Fails (Errorf_w ErrInvalidFile '': empty mimetype'')
         else Returns \<lparr>name = nm, mimetype = mt, file_b = bs\<rparr>))"

section \<open>The dataset\<close>

text \<open>
  \<open>CSV\<close> embeds \<open>*FILE\<close> (field \<open>csv_file\<close>) and holds the header and the rows (fields
  \<open>header\<close> and \<open>rows\<close> in the source).
\<close>

record CSV =
  csv_file :: FILE
  csv_header :: CSV_HEADER
  rows :: "string list list"

text \<open>
  The final loop of \<open>NewCSV\<close> over the rows that \<open>ReadAll\<close> returned: a row whose
  length differs from the header's ends the construction with an error.
\<close>

fun NewCSV_rows :: "CSV \<Rightarrow> string list list \<Rightarrow> CSV outcome" where
  "NewCSV_rows results [] = Returns results"
| "NewCSV_rows results (row # rws) =
     (let want = Len (csv_header results); got = int (length row) in
      if want \<noteq> got then
        Fails (Errorf_w ErrInvalidCSV
          ('': malformed body (row has '' @ Sprint_d got @ '' fields; header indicates ''
             @ Sprint_d want @ '')''))
      else NewCSV_rows (results\<lparr>rows := rows results @ [row]\<rparr>) rws)"

text \<open>
  \<open>NewCSV\<close> reads through package \<open>encoding/csv\<close>, which is not part of this repository:
  the reader is a parameter. \<open>Read bs\<close> stands for \<open>csv.NewReader(bytes.NewReader(bs))\<close>
  followed by the first \<open>Read()\<close> and gives the header record with the reader's state;
  \<open>ReadAll\<close> gives the remaining records. Either fails with \<open>Inl\<close> of its error.
\<close>

definition NewCSV ::
  "(string \<Rightarrow> go_error + string list \<times> 'r) \<Rightarrow> ('r \<Rightarrow> go_error + string list list) \<Rightarrow>
   string \<Rightarrow> string \<Rightarrow> string \<Rightarrow> CSV outcome" where
  "NewCSV Read ReadAll nm mt bs =
     (case NewFile nm mt bs of
        Panics p \<Rightarrow> Panics p
      | Fails e \<Rightarrow> Fails e
      | Returns file \<Rightarrow>
          (case Read (file_b file) of
             Inl e \<Rightarrow> Fails (Errorf_w_w ErrInvalidCSV '': error reading header row '' e [])
           | Inr (hdr, r) \<Rightarrow>
               (case ReadAll r of
                  Inl e \<Rightarrow> Fails (Errorf_w_w ErrInvalidCSV '': error reading csv body: '' e [])
                | Inr rws \<Rightarrow>
                    NewCSV_rows
                      \<lparr>csv_file = file, csv_header = \<lparr>header = hdr, sorted_header = None\<rparr>,
                       rows = []\<rparr> rws)))"

section \<open>Adapting a template to a dataset\<close>

text \<open>
  The \<open>bufio.Reader\<close> over the template's bytes is modelled as the bytes not yet read;
  \<open>ReadByte\<close> on it fails only with \<open>io.EOF\<close>, when nothing is left. Each scanner
  returns the text read, the error if any, and the reader after the call. The loops
  carry the \<open>strings.Builder\<close> as \<open>buffer\<close>.
\<close>

fun readUntilNextTemplateActionEnd_loop ::
  "string \<Rightarrow> string \<Rightarrow> string \<times> go_error option \<times> string" where
  "readUntilNextTemplateActionEnd_loop buffer [] =
     (buffer,
      Some (Errorf_w_w errNoToken '': found '' (sentinel_error io_EOF)
              '' before template action end''),
      [])"
| "readUntilNextTemplateActionEnd_loop buffer (c # r) =
     (let buffer = buffer @ [c] in
      if suffix ''}}'' buffer then (buffer, None, r)
      else readUntilNextTemplateActionEnd_loop buffer r)"

definition readUntilNextTemplateActionEnd ::
  "string \<Rightarrow> string \<times> go_error option \<times> string" where
  "readUntilNextTemplateActionEnd r = readUntilNextTemplateActionEnd_loop [] r"

fun readUntilNextTemplateAction_loop ::
  "string \<Rightarrow> string \<Rightarrow> string \<times> go_error option \<times> string" where
  "readUntilNextTemplateAction_loop buffer [] =
     (buffer,
      Some (Errorf_w_w errNoToken '': found '' (sentinel_error io_EOF)
              '' before template action''),
      [])"
| "readUntilNextTemplateAction_loop buffer (c # r) =
     (let buffer = buffer @ [c] in
      if suffix ''{{'' buffer then (buffer, None, r)
      else readUntilNextTemplateAction_loop buffer r)"

definition readUntilNextTemplateAction ::
  "string \<Rightarrow> string \<times> go_error option \<times> string" where
  "readUntilNextTemplateAction r = readUntilNextTemplateAction_loop [] r"

lemma readUntilNextTemplateActionEnd_loop_shorter:
  "readUntilNextTemplateActionEnd_loop buffer r = (got, None, r') \<Longrightarrow> length r' < length r"
  by (induction r arbitrary: buffer) (auto simp: Let_def less_Suc_eq split: if_splits)

lemma readUntilNextTemplateAction_loop_shorter:
  "readUntilNextTemplateAction_loop buffer r = (got, None, r') \<Longrightarrow> length r' < length r"
  by (induction r arbitrary: buffer) (auto simp: Let_def less_Suc_eq split: if_splits)

text \<open>
  The loop of \<open>AdaptTemplateToCSV\<close>, with the output buffer \<open>results\<close> and the reader as
  arguments. The dataset is passed and returned because \<open>FindKeyIndex\<close> stores the
  sorted index in its header.
\<close>

function AdaptTemplateToCSV_loop ::
  "sorter \<Rightarrow> CSV \<Rightarrow> string \<Rightarrow> string \<Rightarrow> string outcome \<times> CSV" where
  "AdaptTemplateToCSV_loop pdqsort c results reader =
     (case readUntilNextTemplateAction reader of
        (got, err, reader1) \<Rightarrow>
          (let results1 = results @ got in
           case err of
             Some e \<Rightarrow>
               if \<not> errors_Is e errNoToken then
                 (Fails (Errorf_w_w ErrInvalidTemplate '': error reading template '' e []), c)
               else (Returns results1, c)
           | None \<Rightarrow>
               (case readUntilNextTemplateActionEnd reader1 of
                  (got2, err2, reader2) \<Rightarrow>
                    (case err2 of
                       Some e \<Rightarrow>
                         (Fails (Errorf_w ErrInvalidTemplate
                                   '': no action end found after opening {{''), c)
                     | None \<Rightarrow>
                         (let got3 = strings_Trim got2 [CHR '' '', CHR 0x09, CHR 0x0A, CHR ''.'', CHR ''}'']
                          in case FindKeyIndex pdqsort (csv_header c) got3 of
                               (res, h) \<Rightarrow>
                                 (let c' = c\<lparr>csv_header := h\<rparr> in
                                  case res of
                                    Panics p \<Rightarrow> (Panics p, c')
                                  | Fails e \<Rightarrow> (Fails e, c')
                                  | Returns i \<Rightarrow>
                                      if i = -1 then
                                        (Fails (Errorf_w ErrInvalidTemplate
                                           ('': key '' @ [CHR 0x27] @ got3 @ [CHR 0x27]
                                              @ '' not found in csv header'')), c')
                                      else
                                        AdaptTemplateToCSV_loop pdqsort c'
                                          (results1 @ '' index . '' @ Sprint_d i @ '' }}'')
                                          reader2))))))"
  by pat_completeness auto
termination
  by (relation "measure (\<lambda>(pdqsort, c, results, reader). length reader)")
    (auto simp: readUntilNextTemplateAction_def readUntilNextTemplateActionEnd_def
      dest!: readUntilNextTemplateAction_loop_shorter [OF sym]
        readUntilNextTemplateActionEnd_loop_shorter [OF sym])

declare AdaptTemplateToCSV_loop.simps [simp del]

definition AdaptTemplateToCSV :: "sorter \<Rightarrow> CSV \<Rightarrow> FILE \<Rightarrow> string outcome \<times> CSV" where
  "AdaptTemplateToCSV pdqsort c raw_template =
     AdaptTemplateToCSV_loop pdqsort c [] (file_b raw_template)"

section \<open>The renderer\<close>

text \<open>
  The compiled \<open>*template.Template\<close> of package \<open>text/template\<close> is modelled by what
  \<open>Execute(writer, csvrow)\<close> does with a fresh buffer: the bytes written and the error
  returned. \<open>position\<close> starts at zero and is only ever incremented, so it is a \<open>nat\<close>.
\<close>

type_synonym text_template = "string list \<Rightarrow> string \<times> go_error option"

record Template =
  raw_file :: FILE
  csv :: CSV
  raw_adapted_template :: string
  adapted_template :: text_template
  position :: nat

text \<open>\<open>Next\<close> returns \<open>(templateoutput, csvrow, err)\<close> and the receiver after the call.\<close>

definition Next :: "Template \<Rightarrow> (string \<times> string list \<times> go_error option) \<times> Template" where
  "Next t =
     (let i = position t in
      if i \<ge> length (rows (csv t)) then
        (([], [], Some (Errorf_w io_EOF '': nothing else to do'')), t)
      else
        (let t = t\<lparr>position := position t + 1\<rparr>;
             csvrow = rows (csv t) ! i
         in case adapted_template t csvrow of
              (templateoutput, err) \<Rightarrow> ((templateoutput, csvrow, err), t)))"

lemma Next_advances:
  "Next t = ((output, row, None), t') \<Longrightarrow>
     length (rows (csv t')) - position t' < length (rows (csv t)) - position t"
  by (auto simp: Next_def Let_def split: if_splits prod.splits)

function ExecuteAll_loop ::
  "string list \<Rightarrow> string list list \<Rightarrow> Template \<Rightarrow>
   (string list \<times> string list list \<times> go_error option) \<times> Template" where
  "ExecuteAll_loop templateoutput rws t =
     (case Next t of
        ((output, row, err), t') \<Rightarrow>
          (case err of
             Some e \<Rightarrow>
               if \<not> errors_Is e io_EOF then ((templateoutput, rws, Some e), t')
               else ((templateoutput, rws, None), t')
           | None \<Rightarrow> ExecuteAll_loop (templateoutput @ [output]) (rws @ [row]) t'))"
  by pat_completeness auto
termination
  by (relation "measure (\<lambda>(templateoutput, rws, t). length (rows (csv t)) - position t)")
    (auto dest!: Next_advances [OF sym])

declare ExecuteAll_loop.simps [simp del]

definition ExecuteAll ::
  "Template \<Rightarrow> (string list \<times> string list list \<times> go_error option) \<times> Template" where
  "ExecuteAll t = ExecuteAll_loop [] [] t"

text \<open>
  \<open>NewTemplate\<close> compiles the adapted source with \<open>template.New(name).Parse\<close>, a
  parameter here: \<open>Parse name src\<close> gives the compiled template or the parser's error.
  The dataset is returned as well, as \<open>AdaptTemplateToCSV\<close> leaves it.
\<close>

definition NewTemplate ::
  "sorter \<Rightarrow> (string \<Rightarrow> string \<Rightarrow> go_error + text_template) \<Rightarrow>
   string \<Rightarrow> string \<Rightarrow> string \<Rightarrow> CSV \<Rightarrow> Template outcome \<times> CSV" where
  "NewTemplate pdqsort Parse nm mt bs c =
     (case NewFile nm mt bs of
        Panics p \<Rightarrow> (Panics p, c)
      | Fails e \<Rightarrow> (Fails e, c)
      | Returns file \<Rightarrow>
          (case AdaptTemplateToCSV pdqsort c file of
             (Panics p, c') \<Rightarrow> (Panics p, c')
           | (Fails e, c') \<Rightarrow> (Fails e, c')
           | (Returns adapted, c') \<Rightarrow>
               (case Parse (name file) adapted of
                  Inl e \<Rightarrow>
                    (Fails (Err (wraps e)
                       (''error creating new text/template.Template: '' @ Error e)), c')
                | Inr tmpl \<Rightarrow>
                    (Returns \<lparr>raw_file = file, csv = c', raw_adapted_template = adapted,
                              adapted_template = tmpl, position = 0\<rparr>, c'))))"

section \<open>Library models used at concrete inputs\<close>

subsection \<open>A fragment of text/template\<close>

text \<open>
  Package \<open>text/template\<close> is not part of this repository. The fragment modelled here is
  the one of adapted templates: literal text and actions of the exact form
  \<open>{{ index . n }}\<close> with a decimal numeral \<open>n\<close>. Literal text is written as it is; the
  action writes element \<open>n\<close> of the row, and fails, keeping what was written before, when
  the row has no such element. A source with any other action, or with \<open>{{\<close> and
  no \<open>}}\<close> after it, is outside the fragment: \<open>text_template_Parse\<close> answers \<open>Inl\<close> of an
  error marked \<open>Foreign ''unmodelled''\<close> for it. The wording of the engine's error messages
  is not modelled.
\<close>

datatype node = TextNode string | IndexNode nat

fun split_at :: "string \<Rightarrow> string \<Rightarrow> (string \<times> string) option" where
  "split_at d [] = (if d = [] then Some ([], []) else None)"
| "split_at d (c # s) =
     (if prefix d (c # s) then Some ([], drop (length d) (c # s))
      else map_option (\<lambda>(before, after). (c # before, after)) (split_at d s))"

definition numeral_value :: "string \<Rightarrow> nat" where
  "numeral_value ds =
     foldl (\<lambda>n c. 10 * n + length (takeWhile (\<lambda>d. d \<noteq> c) ''0123456789'')) 0 ds"

definition index_action :: "string \<Rightarrow> nat option" where
  "index_action body =
     (let ds = take (length body - 10) (drop 9 body) in
      if body = '' index . '' @ ds @ '' '' \<and> ds \<noteq> [] \<and> set ds \<subseteq> set ''0123456789''
         \<and> decimal (numeral_value ds) = ds
      then Some (numeral_value ds) else None)"

lemma split_at_shorter:
  assumes "split_at (x # d) s = Some (before, after)"
  shows "length after < length s"
  using assms
proof (induction s arbitrary: before)
  case Nil
  then show ?case by simp
next
  case (Cons c s)
  show ?case
  proof (cases "prefix (x # d) (c # s)")
    case True
    with Cons.prems have "after = drop (length (x # d)) (c # s)"
      by simp
    then show ?thesis
      by simp
  next
    case False
    with Cons.prems obtain before' where "split_at (x # d) s = Some (before', after)"
      by auto
    from Cons.IH [OF this] show ?thesis
      by simp
  qed
qed

function parse_nodes :: "string \<Rightarrow> node list option" where
  "parse_nodes src =
     (case split_at ''{{'' src of
        None \<Rightarrow> Some (if src = [] then [] else [TextNode src])
      | Some (txt, r) \<Rightarrow>
          (case split_at ''}}'' r of
             None \<Rightarrow> None
           | Some (body, r') \<Rightarrow>
               (case index_action body of
                  None \<Rightarrow> None
                | Some n \<Rightarrow>
                    map_option (\<lambda>ns. (if txt = [] then [] else [TextNode txt]) @ IndexNode n # ns)
                      (parse_nodes r'))))"
  by pat_completeness auto
termination
  by (relation "measure length")
    (auto dest!: split_at_shorter)

declare parse_nodes.simps [simp del]

fun Execute_nodes :: "node list \<Rightarrow> string list \<Rightarrow> string \<times> go_error option" where
  "Execute_nodes [] row = ([], None)"
| "Execute_nodes (TextNode s # ns) row =
     (case Execute_nodes ns row of (out, err) \<Rightarrow> (s @ out, err))"
| "Execute_nodes (IndexNode n # ns) row =
     (if n < length row then
        (case Execute_nodes ns row of (out, err) \<Rightarrow> (row ! n @ out, err))
      else
        ([], Some (Err [Foreign ''template.ExecError'']
                     (''template: error calling index: index out of range: '' @ decimal n))))"

definition text_template_Parse :: "string \<Rightarrow> string \<Rightarrow> go_error + text_template" where
  "text_template_Parse nm src =
     (case parse_nodes src of
        None \<Rightarrow> Inl (Err [Foreign ''unmodelled''] (''template: '' @ nm @ '': unmodelled source''))
      | Some ns \<Rightarrow> Inr (Execute_nodes ns))"

subsection \<open>A fragment of encoding/csv\<close>

text \<open>
  The reader of package \<open>encoding/csv\<close> with its default settings, on input that has
  neither a double quote nor a carriage return: a record is a line that is not empty,
  its fields are the pieces between commas, the first record fixes the number of fields
  and a later record with another number is an error (\<open>csv.ErrFieldCount\<close>), an input
  without any record gives \<open>io.EOF\<close>. Other input is outside the fragment and answered
  with an error marked \<open>Foreign ''unmodelled''\<close>. The reader's state after the header is
  the number of fields and the remaining lines with their line numbers.
\<close>

fun split_on :: "char \<Rightarrow> string \<Rightarrow> string list" where
  "split_on d [] = [[]]"
| "split_on d (c # s) =
     (if c = d then [] # split_on d s
      else (case split_on d s of [] \<Rightarrow> [[c]] | w # ws \<Rightarrow> (c # w) # ws))"

definition csv_records :: "string \<Rightarrow> (nat \<times> string list) list" where
  "csv_records bs =
     map (\<lambda>(n, l). (n, split_on CHR '','' l))
       (filter (\<lambda>(n, l). l \<noteq> [])
          (zip [1..<Suc (length (split_on (CHR 0x0A) bs))] (split_on (CHR 0x0A) bs)))"

definition csv_plain_Read :: "string \<Rightarrow> go_error + string list \<times> nat \<times> (nat \<times> string list) list" where
  "csv_plain_Read bs =
     (if CHR 0x22 \<in> set bs \<or> CHR 0x0D \<in> set bs then
        Inl (Err [Foreign ''unmodelled''] ''unmodelled input'')
      else
        (case csv_records bs of
           [] \<Rightarrow> Inl (sentinel_error io_EOF)
         | (n, record) # rest \<Rightarrow> Inr (record, length record, rest)))"

fun csv_plain_ReadAll :: "nat \<times> (nat \<times> string list) list \<Rightarrow> go_error + string list list" where
  "csv_plain_ReadAll (FieldsPerRecord, []) = Inr []"
| "csv_plain_ReadAll (FieldsPerRecord, (n, record) # rest) =
     (if length record \<noteq> FieldsPerRecord then
        Inl (Err [Foreign ''wrong number of fields'']
               (''record on line '' @ decimal n @ '': wrong number of fields''))
      else
        (case csv_plain_ReadAll (FieldsPerRecord, rest) of
           Inl e \<Rightarrow> Inl e
         | Inr records \<Rightarrow> Inr (record # records)))"

section \<open>Notions used in the statements\<close>

subsection \<open>What sorting guarantees\<close>

text \<open>
  \<open>sorts_by_key pdqsort\<close>: with the comparison of \<open>FindKeyIndex\<close>, \<open>pdqsort\<close> leaves a
  permutation of the slice that is ordered by key. Nothing is said about the order of
  elements with equal keys.
\<close>

definition sorts_by_key :: "sorter \<Rightarrow> bool" where
  "sorts_by_key pdqsort =
     (\<forall>xs. mset (pdqsort (\<lambda>a b. key a < key b) xs) = mset xs
          \<and> sorted (map key (pdqsort (\<lambda>a b. key a < key b) xs)))"

subsection \<open>The stored index\<close>

text \<open>
  \<open>built_index pdqsort h\<close> is the index that the first lookup stores for the header
  \<open>h\<close>, and \<open>index_built pdqsort c\<close> says that the receiver holds no index yet or holds
  that one. \<open>NewCSV\<close>
  creates the header without an index and nothing but \<open>FindKeyIndex\<close> writes the field.
\<close>

definition built_index :: "sorter \<Rightarrow> string list \<Rightarrow> header_field list" where
  "built_index pdqsort h = sort_Slice pdqsort (\<lambda>a b. key a < key b) (header_fields h)"

definition index_built :: "sorter \<Rightarrow> CSV_HEADER \<Rightarrow> bool" where
  "index_built pdqsort c =
     (case sorted_header c of None \<Rightarrow> True | Some sh \<Rightarrow> sh = built_index pdqsort (header c))"

subsection \<open>Templates as text and actions\<close>

text \<open>
  A template with actions is \<open>raw_actions ps @ final\<close>: each pair \<open>(t, a)\<close> of \<open>ps\<close> is
  the text \<open>t\<close> before an action and the text \<open>a\<close> between its delimiters, and \<open>final\<close>
  is the text after the last action. \<open>well_delimited (t, a)\<close> says that the delimiters
  written around \<open>a\<close> are the ones the scanners stop at: \<open>{{\<close> does not occur in \<open>t{{\<close>
  before its end, nor \<open>}}\<close> in \<open>a}}\<close>. The candidate name of an action is \<open>a\<close> trimmed;
  \<open>resolved pdqsort h k\<close> is the position that \<open>FindKeyIndex\<close> returns for \<open>k\<close> on a header \<open>h\<close>
  (and \<open>-1\<close> where it returns none); \<open>adapted_actions\<close> writes \<open>{{ index . i }}\<close> for
  each action.
\<close>

definition candidate_name :: "string \<Rightarrow> string" where
  "candidate_name a = strings_Trim a [CHR '' '', CHR 0x09, CHR 0x0A, CHR ''.'', CHR ''}'']"

definition resolved :: "sorter \<Rightarrow> string list \<Rightarrow> string \<Rightarrow> int" where
  "resolved pdqsort h k =
     (case fst (FindKeyIndex pdqsort \<lparr>header = h, sorted_header = None\<rparr> k) of
        Returns i \<Rightarrow> i
      | _ \<Rightarrow> -1)"

fun raw_actions :: "(string \<times> string) list \<Rightarrow> string" where
  "raw_actions [] = []"
| "raw_actions ((t, a) # ps) = t @ ''{{'' @ a @ ''}}'' @ raw_actions ps"

fun adapted_actions :: "sorter \<Rightarrow> string list \<Rightarrow> (string \<times> string) list \<Rightarrow> string" where
  "adapted_actions pdqsort h [] = []"
| "adapted_actions pdqsort h ((t, a) # ps) =
     t @ ''{{ index . '' @ Sprint_d (resolved pdqsort h (candidate_name a)) @ '' }}''
       @ adapted_actions pdqsort h ps"

definition well_delimited :: "string \<times> string \<Rightarrow> bool" where
  "well_delimited p = (case p of (t, a) \<Rightarrow>
     \<not> sublist ''{{'' (t @ ''{'') \<and> \<not> sublist ''}}'' (a @ ''}''))"

text \<open>
  \<open>unterminated b\<close>: somewhere in \<open>b\<close> stands an open delimiter with no close delimiter
  after it.
\<close>

definition unterminated :: "string \<Rightarrow> bool" where
  "unterminated b = (\<exists>p s. b = p @ ''{{'' @ s \<and> \<not> sublist ''}}'' s)"

subsection \<open>Calling Next repeatedly\<close>

text \<open>\<open>Next_times n\<close> is a caller that invokes \<open>Next\<close> \<open>n\<close> times and collects what it returns.\<close>

fun Next_times ::
  "nat \<Rightarrow> Template \<Rightarrow> (string \<times> string list \<times> go_error option) list \<times> Template" where
  "Next_times 0 t = ([], t)"
| "Next_times (Suc n) t =
     (case Next t of (r, t') \<Rightarrow> (case Next_times n t' of (rs, t'') \<Rightarrow> (r # rs, t'')))"

section \<open>The test data of the package\<close>

text \<open>
  \<open>TheTestTemplate\<close>, \<open>TheTestCSV\<close> and \<open>TheTestCSVTemplateResults\<close> of
  \<open>template_test.go\<close>; \<open>test_dataset\<close> is the dataset with the header and the row of
  \<open>TheTestCSV\<close>, and \<open>test_template_file\<close> a file named as in the test.
\<close>

definition TheTestTemplate :: string where
  "TheTestTemplate =
     ''Hello, {{ RecipientName }}'' @ [CHR 0x0A, CHR 0x0A] @ ''Welcome to {{ GroupName }}.''
       @ [CHR 0x0A, CHR 0x0A] @ ''Thank you,'' @ [CHR 0x0A] @ ''{{ SenderName }}'' @ [CHR 0x0A]"

definition TheTestCSV :: string where
  "TheTestCSV =
     ''SenderName,RecipientName,GroupName'' @ [CHR 0x0A]
       @ ''sender@example.com,recipient@example.com,group name'' @ [CHR 0x0A]"

definition TheTestCSVTemplateResults :: string where
  "TheTestCSVTemplateResults =
     ''Hello, recipient@example.com'' @ [CHR 0x0A, CHR 0x0A] @ ''Welcome to group name.''
       @ [CHR 0x0A, CHR 0x0A] @ ''Thank you,'' @ [CHR 0x0A] @ ''sender@example.com''
       @ [CHR 0x0A]"

definition test_dataset :: CSV where
  "test_dataset =
     \<lparr>csv_file = \<lparr>name = ''test.csv'', mimetype = ''text/csv'', file_b = TheTestCSV\<rparr>,
      csv_header =
        \<lparr>header = [''SenderName'', ''RecipientName'', ''GroupName''], sorted_header = None\<rparr>,
      rows = [[''sender@example.com'', ''recipient@example.com'', ''group name'']]\<rparr>"

definition test_template_file :: "string \<Rightarrow> FILE" where
  "test_template_file bs = \<lparr>name = ''test.template'', mimetype = ''text/plain'', file_b = bs\<rparr>"

text \<open>
  A dataset of thirteen columns, two of them named \<open>a\<close>, and a sorter for \<open>pdqsort\<close> that
  leaves the later of two elements with equal keys first, as a sort that is not stable
  may.
\<close>

definition wide_dataset :: CSV where
  "wide_dataset =
     \<lparr>csv_file = \<lparr>name = ''wide.csv'', mimetype = ''text/csv'', file_b = []\<rparr>,
      csv_header =
        \<lparr>header = [''a'', ''b'', ''c'', ''d'', ''e'', ''f'', ''a'', ''h'', ''i'', ''j'', ''k'', ''l'',
                   ''m''],
         sorted_header = None\<rparr>,
      rows = []\<rparr>"

definition later_first :: "('a \<Rightarrow> 'a \<Rightarrow> bool) \<Rightarrow> 'a list \<Rightarrow> 'a list" where
  "later_first lt xs = insertionSortLessFunc lt (rev xs)"

text \<open>A table whose only body row has one field under a header of two.\<close>

definition uneven_csv :: string where
  "uneven_csv = ''a,b'' @ [CHR 0x0A] @ ''1'' @ [CHR 0x0A]"

text \<open>
  A renderer over the header of the test with the given rows, as \<open>NewTemplate\<close> leaves
  it (cursor at zero); its engine writes the fields of a row one after the other and
  fails, after writing \<open>partial\<close>, on a row that has the field \<open>bad\<close>.
\<close>

definition sample_engine :: text_template where
  "sample_engine row =
     (if ''bad'' \<in> set row then
        (''partial'', Some (Err [Foreign ''exec''] ''template: execution failed''))
      else (concat row, None))"

definition sample_renderer :: "string list list \<Rightarrow> Template" where
  "sample_renderer rws =
     \<lparr>raw_file = test_template_file [], csv = test_dataset\<lparr>rows := rws\<rparr>,
      raw_adapted_template = [], adapted_template = sample_engine, position = 0\<rparr>"

section \<open>Properties of the library functions\<close>

subsection \<open>sort.Slice leaves an ordered permutation\<close>

lemma sort_insert_set: "set (sort_insert lt x ys) = insert x (set ys)"
  by (induction ys) auto

lemma sort_insert_length: "length (sort_insert lt x ys) = Suc (length ys)"
  by (induction ys) auto

lemma sort_insert_sorted:
  fixes f :: "'a \<Rightarrow> 'b::linorder"
  shows "sorted (map f ys) \<Longrightarrow> sorted (map f (sort_insert (\<lambda>a b. f a < f b) x ys))"
  by (induction ys) (auto simp: sort_insert_set)

lemma foldl_sort_insert_set:
  "set (foldl (\<lambda>acc x. sort_insert lt x acc) acc xs) = set acc \<union> set xs"
  by (induction xs arbitrary: acc) (auto simp: sort_insert_set)

lemma foldl_sort_insert_length:
  "length (foldl (\<lambda>acc x. sort_insert lt x acc) acc xs) = length acc + length xs"
  by (induction xs arbitrary: acc) (auto simp: sort_insert_length)

lemma foldl_sort_insert_sorted:
  fixes f :: "'a \<Rightarrow> 'b::linorder"
  shows "sorted (map f acc) \<Longrightarrow>
    sorted (map f (foldl (\<lambda>acc x. sort_insert (\<lambda>a b. f a < f b) x acc) acc xs))"
  by (induction xs arbitrary: acc) (auto simp: sort_insert_sorted)

lemma insertionSortLessFunc_set: "set (insertionSortLessFunc lt xs) = set xs"
  by (simp add: insertionSortLessFunc_def foldl_sort_insert_set)

lemma insertionSortLessFunc_length: "length (insertionSortLessFunc lt xs) = length xs"
  by (simp add: insertionSortLessFunc_def foldl_sort_insert_length)

lemma insertionSortLessFunc_sorted:
  fixes f :: "'a \<Rightarrow> 'b::linorder"
  shows "sorted (map f (insertionSortLessFunc (\<lambda>a b. f a < f b) xs))"
  by (simp add: insertionSortLessFunc_def foldl_sort_insert_sorted)

lemma foldl_sort_insert_mset:
  "mset (foldl (\<lambda>acc x. sort_insert lt x acc) acc xs) = mset acc + mset xs"
proof (induction xs arbitrary: acc)
  case Nil
  then show ?case by simp
next
  case (Cons x xs)
  have "mset (sort_insert lt x acc) = add_mset x (mset acc)" for acc
    by (induction acc) simp_all
  with Cons show ?case
    by simp
qed

lemma insertionSortLessFunc_sorts: "sorts_by_key insertionSortLessFunc"
  by (simp add: sorts_by_key_def insertionSortLessFunc_sorted)
    (simp add: insertionSortLessFunc_def foldl_sort_insert_mset)

lemma later_first_sorts: "sorts_by_key later_first"
  by (simp add: sorts_by_key_def later_first_def insertionSortLessFunc_sorted)
    (simp add: insertionSortLessFunc_def foldl_sort_insert_mset)

text \<open>With a sorting \<open>pdqsort\<close>, \<open>sort.Slice\<close> leaves an ordered slice of the same elements.\<close>

lemma sort_Slice_set:
  "sorts_by_key pdqsort \<Longrightarrow> set (sort_Slice pdqsort (\<lambda>a b. key a < key b) xs) = set xs"
  by (auto simp: sort_Slice_def insertionSortLessFunc_set sorts_by_key_def dest: mset_eq_setD)

lemma sort_Slice_length:
  "sorts_by_key pdqsort \<Longrightarrow> length (sort_Slice pdqsort (\<lambda>a b. key a < key b) xs) = length xs"
  by (auto simp: sort_Slice_def insertionSortLessFunc_length sorts_by_key_def
    dest: mset_eq_length)

lemma sort_Slice_sorted:
  "sorts_by_key pdqsort \<Longrightarrow> sorted (map key (sort_Slice pdqsort (\<lambda>a b. key a < key b) xs))"
  by (simp add: sort_Slice_def insertionSortLessFunc_sorted sorts_by_key_def)

subsection \<open>sort.Search finds the first position that satisfies a monotone predicate\<close>

lemma sort_Search_loop_bounds:
  assumes "i \<le> j"
    and "\<forall>k<i. \<not> f k"
    and "\<forall>k\<ge>j. k < n \<longrightarrow> f k"
    and "\<forall>a b. a \<le> b \<and> b < n \<and> f a \<longrightarrow> f b"
    and "j \<le> n"
  shows "i \<le> sort_Search_loop f i j \<and> sort_Search_loop f i j \<le> j
    \<and> (\<forall>k<sort_Search_loop f i j. \<not> f k)
    \<and> (\<forall>k\<ge>sort_Search_loop f i j. k < n \<longrightarrow> f k)"
  using assms
proof (induction f i j rule: sort_Search_loop.induct)
  case (1 f i j)
  note mono = "1.prems"(4)
  show ?case
  proof (cases "i < j")
    case False
    then have "sort_Search_loop f i j = i"
      by (subst sort_Search_loop.simps) simp
    moreover from False "1.prems"(1) have "i = j"
      by simp
    ultimately show ?thesis
      using "1.prems"(2,3) by simp
  next
    case True
    define h where "h = (i + j) div 2"
    from True have h: "i \<le> h" "h < j"
      by (simp_all add: h_def)
    show ?thesis
    proof (cases "f h")
      case fh: True
      have up: "\<forall>k\<ge>h. k < n \<longrightarrow> f k"
      proof (intro allI impI)
        fix k assume "h \<le> k" "k < n"
        with fh mono show "f k" by blast
      qed
      have le: "h \<le> n"
        using h "1.prems"(5) by simp
      have eq: "sort_Search_loop f i j = sort_Search_loop f i h"
        using True fh by (subst sort_Search_loop.simps) (simp add: h_def Let_def)
      have "i \<le> sort_Search_loop f i h \<and> sort_Search_loop f i h \<le> h
        \<and> (\<forall>k<sort_Search_loop f i h. \<not> f k)
        \<and> (\<forall>k\<ge>sort_Search_loop f i h. k < n \<longrightarrow> f k)"
        using fh by (intro "1.IH"(2) [OF True h_def _ h(1) "1.prems"(2) up mono le]) simp
      then show ?thesis
        unfolding eq using h by auto
    next
      case nfh: False
      have down: "\<forall>k<h + 1. \<not> f k"
      proof (intro allI impI notI)
        fix k assume "k < h + 1" "f k"
        then have "k \<le> h" by simp
        moreover have "h < n" using h "1.prems"(5) by simp
        ultimately have "f h" using mono \<open>f k\<close> by blast
        with nfh show False ..
      qed
      have le: "h + 1 \<le> j"
        using h by simp
      have eq: "sort_Search_loop f i j = sort_Search_loop f (h + 1) j"
        using True nfh by (subst sort_Search_loop.simps) (simp add: h_def Let_def)
      have "h + 1 \<le> sort_Search_loop f (h + 1) j \<and> sort_Search_loop f (h + 1) j \<le> j
        \<and> (\<forall>k<sort_Search_loop f (h + 1) j. \<not> f k)
        \<and> (\<forall>k\<ge>sort_Search_loop f (h + 1) j. k < n \<longrightarrow> f k)"
        using nfh by (intro "1.IH"(1) [OF True h_def _ le down "1.prems"(3) mono "1.prems"(5)]) simp
      then show ?thesis
        unfolding eq using h by auto
    qed
  qed
qed

lemma sort_Search_sorted:
  fixes g :: "'a \<Rightarrow> 'b::linorder"
  assumes "sorted (map g xs)"
  shows "sort_Search (length xs) (\<lambda>i. g (xs ! i) \<ge> k) \<le> length xs
    \<and> (\<forall>i<sort_Search (length xs) (\<lambda>i. g (xs ! i) \<ge> k). g (xs ! i) < k)
    \<and> (\<forall>i\<ge>sort_Search (length xs) (\<lambda>i. g (xs ! i) \<ge> k).
          i < length xs \<longrightarrow> k \<le> g (xs ! i))"
proof -
  have mono: "\<forall>a b. a \<le> b \<and> b < length xs \<and> k \<le> g (xs ! a) \<longrightarrow> k \<le> g (xs ! b)"
  proof (intro allI impI)
    fix a b assume ab: "a \<le> b \<and> b < length xs \<and> k \<le> g (xs ! a)"
    then have "g (xs ! a) \<le> g (xs ! b)"
      using sorted_nth_mono [OF assms, of a b] by simp
    with ab show "k \<le> g (xs ! b)"
      by (meson order_trans)
  qed
  have "0 \<le> length xs" "\<forall>k'<0::nat. \<not> k \<le> g (xs ! k')"
    "\<forall>k'\<ge>length xs. k' < length xs \<longrightarrow> k \<le> g (xs ! k')"
    by simp_all
  from sort_Search_loop_bounds [OF this mono order_refl]
  show ?thesis
    by (simp add: sort_Search_def not_le)
qed

section \<open>Properties of the header index\<close>

lemma header_fields_set:
  "set (header_fields h) = {\<lparr>key = h ! i, index = int i\<rparr> | i. i < length h}"
proof -
  have "set (zip h [0..<length h]) = {(h ! i, i) | i. i < length h}"
  proof (rule set_eqI)
    fix x :: "string \<times> nat"
    show "x \<in> set (zip h [0..<length h]) \<longleftrightarrow> x \<in> {(h ! i, i) | i. i < length h}"
      by (cases x) (auto simp: set_zip)
  qed
  then show ?thesis
    by (auto simp: header_fields_def)
qed

lemma built_index_sorted: "sorts_by_key pdqsort \<Longrightarrow> sorted (map key (built_index pdqsort h))"
  unfolding built_index_def by (rule sort_Slice_sorted)

lemma built_index_length: "sorts_by_key pdqsort \<Longrightarrow> length (built_index pdqsort h) = length h"
  by (simp add: built_index_def sort_Slice_length header_fields_def)

lemma built_index_set:
  "sorts_by_key pdqsort \<Longrightarrow>
     set (built_index pdqsort h) = {\<lparr>key = h ! i, index = int i\<rparr> | i. i < length h}"
  by (simp add: built_index_def sort_Slice_set header_fields_set)

lemma built_index_nth:
  assumes "i < length h" and srt: "sorts_by_key pdqsort"
  shows "\<exists>p<length h. built_index pdqsort h ! i = \<lparr>key = h ! p, index = int p\<rparr>"
proof -
  from assms have "built_index pdqsort h ! i \<in> set (built_index pdqsort h)"
    by (simp add: built_index_length)
  then show ?thesis
    by (auto simp: built_index_set [OF srt])
qed

lemma built_index_has:
  assumes "k \<in> set h" and srt: "sorts_by_key pdqsort"
  shows "\<exists>i<length h. key (built_index pdqsort h ! i) = k"
proof -
  from assms obtain p where "p < length h" "h ! p = k"
    by (auto simp: in_set_conv_nth)
  then have "\<lparr>key = k, index = int p\<rparr> \<in> set (built_index pdqsort h)"
    by (auto simp: built_index_set [OF srt])
  then obtain i where "i < length (built_index pdqsort h)" "built_index pdqsort h ! i = \<lparr>key = k, index = int p\<rparr>"
    by (auto simp: in_set_conv_nth)
  then show ?thesis
    by (auto simp: built_index_length [OF srt])
qed

lemma FindKeyIndex_state:
  "index_built pdqsort c \<Longrightarrow>
     snd (FindKeyIndex pdqsort c k) = c\<lparr>sorted_header := Some (built_index pdqsort (header c))\<rparr>"
  by (auto simp: FindKeyIndex_def Let_def index_built_def built_index_def split: option.splits)

lemma FindKeyIndex_result:
  fixes k :: string
  assumes "index_built pdqsort c"
  defines "sh \<equiv> built_index pdqsort (header c)"
  defines "i \<equiv> sort_Search (length sh) (\<lambda>i. key (sh ! i) \<ge> k)"
  shows "fst (FindKeyIndex pdqsort c k) =
     (if i \<ge> length sh then Panics (index_out_of_range (int i) (length sh))
      else if key (sh ! i) \<noteq> k then Returns (-1)
      else Returns (index (sh ! i)))"
proof -
  have "(case sorted_header c of
          None \<Rightarrow> sort_Slice pdqsort (\<lambda>a b. key a < key b) (header_fields (header c))
        | Some s \<Rightarrow> s) = sh"
    using assms(1) by (simp add: index_built_def sh_def built_index_def split: option.splits)
  then show ?thesis
    by (simp add: FindKeyIndex_def Let_def i_def)
qed

lemma FindKeyIndex_beyond:
  assumes "index_built pdqsort c" and "\<forall>h\<in>set (header c). h < k"
    and srt: "sorts_by_key pdqsort"
  shows "fst (FindKeyIndex pdqsort c k) =
    Panics (index_out_of_range (int (length (header c))) (length (header c)))"
proof -
  define sh where "sh = built_index pdqsort (header c)"
  define i where "i = sort_Search (length sh) (\<lambda>i. key (sh ! i) \<ge> k)"
  have len: "length sh = length (header c)"
    by (simp add: sh_def built_index_length [OF srt])
  from sort_Search_sorted [of key sh k] built_index_sorted [OF srt, of "header c"]
  have spec: "i \<le> length sh" "\<forall>j\<ge>i. j < length sh \<longrightarrow> k \<le> key (sh ! j)"
    by (simp_all add: sh_def i_def)
  have "i = length sh"
  proof (rule ccontr)
    assume "i \<noteq> length sh"
    with spec have "i < length sh" "k \<le> key (sh ! i)"
      by simp_all
    moreover from \<open>i < length sh\<close> obtain p where "p < length (header c)" "key (sh ! i) = header c ! p"
      using built_index_nth [OF _ srt, of i "header c"] len by (auto simp: sh_def)
    ultimately show False
      using assms(2) by (metis not_le nth_mem)
  qed
  then show ?thesis
    using FindKeyIndex_result [OF assms(1), of k] len by (simp add: sh_def i_def)
qed

lemma FindKeyIndex_absent:
  assumes "index_built pdqsort c" and "k \<notin> set (header c)" and "\<exists>h\<in>set (header c). k < h"
    and srt: "sorts_by_key pdqsort"
  shows "fst (FindKeyIndex pdqsort c k) = Returns (-1)"
proof -
  define sh where "sh = built_index pdqsort (header c)"
  define i where "i = sort_Search (length sh) (\<lambda>i. key (sh ! i) \<ge> k)"
  have len: "length sh = length (header c)"
    by (simp add: sh_def built_index_length [OF srt])
  from sort_Search_sorted [of key sh k] built_index_sorted [OF srt, of "header c"]
  have spec: "\<forall>j<i. key (sh ! j) < k"
    by (simp_all add: sh_def i_def)
  from assms(3) obtain h where "h \<in> set (header c)" "k < h"
    by blast
  then obtain j where j: "j < length sh" "key (sh ! j) = h"
    using built_index_has [OF _ srt, of h "header c"] len by (auto simp: sh_def)
  with spec \<open>k < h\<close> have "\<not> j < i"
    by (metis less_asym)
  with j have "i < length sh"
    by simp
  then obtain p where "p < length (header c)" "key (sh ! i) = header c ! p"
    using built_index_nth [OF _ srt, of i "header c"] len by (auto simp: sh_def)
  with assms(2) have "key (sh ! i) \<noteq> k"
    by (metis nth_mem)
  with \<open>i < length sh\<close> show ?thesis
    using FindKeyIndex_result [OF assms(1), of k] by (simp add: sh_def i_def)
qed

lemma FindKeyIndex_present:
  assumes "index_built pdqsort c" and "k \<in> set (header c)"
    and srt: "sorts_by_key pdqsort"
  shows "\<exists>p<length (header c). header c ! p = k \<and> fst (FindKeyIndex pdqsort c k) = Returns (int p)"
proof -
  define sh where "sh = built_index pdqsort (header c)"
  define i where "i = sort_Search (length sh) (\<lambda>i. key (sh ! i) \<ge> k)"
  have len: "length sh = length (header c)"
    by (simp add: sh_def built_index_length [OF srt])
  from sort_Search_sorted [of key sh k] built_index_sorted [OF srt, of "header c"]
  have spec: "\<forall>j<i. key (sh ! j) < k" "\<forall>j\<ge>i. j < length sh \<longrightarrow> k \<le> key (sh ! j)"
    by (simp_all add: sh_def i_def)
  from assms(2) obtain j where j: "j < length sh" "key (sh ! j) = k"
    using built_index_has [OF _ srt, of k "header c"] len by (auto simp: sh_def)
  with spec(1) have "\<not> j < i"
    by (metis less_irrefl)
  with j have i: "i < length sh" "i \<le> j"
    by simp_all
  have "key (sh ! i) \<le> key (sh ! j)"
    using built_index_sorted [OF srt, of "header c"] i j sorted_nth_mono [of "map key sh" i j]
    by (simp add: sh_def)
  moreover from spec(2) i have "k \<le> key (sh ! i)"
    by simp
  ultimately have found: "key (sh ! i) = k"
    using j by simp
  from i obtain p where p: "p < length (header c)" "sh ! i = \<lparr>key = header c ! p, index = int p\<rparr>"
    using built_index_nth [OF _ srt, of i "header c"] len by (auto simp: sh_def)
  with found have "header c ! p = k"
    by simp
  moreover have "fst (FindKeyIndex pdqsort c k) = Returns (int p)"
    using FindKeyIndex_result [OF assms(1), of k] i found p by (simp add: sh_def i_def)
  ultimately show ?thesis
    using p by blast
qed

text \<open>
  Claim C1: for every header and every key that matches no header name, \<open>FindKeyIndex\<close>
  returns \<open>-1\<close> and never aborts, also for keys that sort after every header name and
  for the empty header. The code does not do this: \<open>sort.Search\<close> answers the length of
  the index when every name is smaller than the key, the guard tests \<open>i == -1\<close>, and
  the element read that follows is out of range. With the header of the package's test
  and the key \<open>Zzz\<close> the call panics; the header has three names, so this holds for
  every \<open>pdqsort\<close>.
\<close>

theorem FindKeyIndex_panics_on_key_after_all_names:
  "fst (FindKeyIndex pdqsort
      \<lparr>header = [''SenderName'', ''RecipientName'', ''GroupName''], sorted_header = None\<rparr>
      ''Zzz'') = Panics (index_out_of_range 3 3)"
  by (simp add: FindKeyIndex_def sort_Slice_def insertionSortLessFunc_def header_fields_def
    sort_Search_def sort_Search_loop.simps)

section \<open>Properties of the scanners\<close>

text \<open>
  Up to the first occurrence of its delimiter a scanner copies the input; without an
  occurrence it copies everything and reports \<open>errNoToken\<close>.
\<close>

lemma suffix_snoc_sublist: "suffix d (buf @ [c]) \<Longrightarrow> sublist d (buf @ c # r)"
proof -
  assume "suffix d (buf @ [c])"
  then obtain zs where "buf @ [c] = zs @ d"
    by (auto simp: suffix_def)
  then have "buf @ c # r = zs @ d @ r"
    by (metis append.assoc append_Cons append_Nil)
  then show ?thesis
    unfolding sublist_def by blast
qed

lemma readUntilNextTemplateAction_loop_none:
  "\<not> sublist ''{{'' (buf @ inp) \<Longrightarrow>
     readUntilNextTemplateAction_loop buf inp =
       (buf @ inp,
        Some (Errorf_w_w errNoToken '': found '' (sentinel_error io_EOF)
                '' before template action''),
        [])"
proof (induction inp arbitrary: buf)
  case Nil
  then show ?case by simp
next
  case (Cons c r)
  from Cons.prems have "\<not> suffix ''{{'' (buf @ [c])"
    using suffix_snoc_sublist [of "''{{''" buf c r] by blast
  moreover from Cons.prems have "\<not> sublist ''{{'' ((buf @ [c]) @ r)"
    by simp
  ultimately show ?case
    using Cons.IH [of "buf @ [c]"] by (simp add: Let_def)
qed

lemma readUntilNextTemplateAction_loop_open:
  "\<not> sublist ''{{'' (buf @ t @ ''{'') \<Longrightarrow>
     readUntilNextTemplateAction_loop buf (t @ ''{{'' @ r) = (buf @ t @ ''{{'', None, r)"
proof (induction t arbitrary: buf)
  case Nil
  then have "\<not> suffix ''{{'' (buf @ ''{'')"
    by auto
  then show ?case
    by (simp add: Let_def suffix_def)
next
  case (Cons c t)
  from Cons.prems have "\<not> suffix ''{{'' (buf @ [c])"
    using suffix_snoc_sublist [of "''{{''" buf c "t @ ''{''"] by auto
  moreover from Cons.prems have "\<not> sublist ''{{'' ((buf @ [c]) @ t @ ''{'')"
    by simp
  ultimately show ?case
    using Cons.IH [of "buf @ [c]"] by (simp add: Let_def)
qed

lemma readUntilNextTemplateActionEnd_loop_none:
  "\<not> sublist ''}}'' (buf @ inp) \<Longrightarrow>
     readUntilNextTemplateActionEnd_loop buf inp =
       (buf @ inp,
        Some (Errorf_w_w errNoToken '': found '' (sentinel_error io_EOF)
                '' before template action end''),
        [])"
proof (induction inp arbitrary: buf)
  case Nil
  then show ?case by simp
next
  case (Cons c r)
  from Cons.prems have "\<not> suffix ''}}'' (buf @ [c])"
    using suffix_snoc_sublist [of "''}}''" buf c r] by blast
  moreover from Cons.prems have "\<not> sublist ''}}'' ((buf @ [c]) @ r)"
    by simp
  ultimately show ?case
    using Cons.IH [of "buf @ [c]"] by (simp add: Let_def)
qed

lemma readUntilNextTemplateActionEnd_loop_close:
  "\<not> sublist ''}}'' (buf @ a @ ''}'') \<Longrightarrow>
     readUntilNextTemplateActionEnd_loop buf (a @ ''}}'' @ r) = (buf @ a @ ''}}'', None, r)"
proof (induction a arbitrary: buf)
  case Nil
  then have "\<not> suffix ''}}'' (buf @ ''}'')"
    by auto
  then show ?case
    by (simp add: Let_def suffix_def)
next
  case (Cons c a)
  from Cons.prems have "\<not> suffix ''}}'' (buf @ [c])"
    using suffix_snoc_sublist [of "''}}''" buf c "a @ ''}''"] by auto
  moreover from Cons.prems have "\<not> sublist ''}}'' ((buf @ [c]) @ a @ ''}'')"
    by simp
  ultimately show ?case
    using Cons.IH [of "buf @ [c]"] by (simp add: Let_def)
qed

section \<open>Properties of the adapter\<close>

subsection \<open>Templates without actions\<close>

text \<open>
  Claim C8: a template without the open delimiter \<open>{{\<close> is adapted successfully and the
  adapted bytes are the input bytes.
\<close>

theorem AdaptTemplateToCSV_identity:
  assumes "\<not> sublist ''{{'' (file_b raw_template)"
  shows "AdaptTemplateToCSV pdqsort c raw_template = (Returns (file_b raw_template), c)"
proof -
  have "readUntilNextTemplateAction (file_b raw_template) =
      (file_b raw_template,
       Some (Errorf_w_w errNoToken '': found '' (sentinel_error io_EOF)
               '' before template action''),
       [])"
    using readUntilNextTemplateAction_loop_none [of "[]" "file_b raw_template"] assms
    by (simp add: readUntilNextTemplateAction_def)
  then show ?thesis
    unfolding AdaptTemplateToCSV_def
    by (subst AdaptTemplateToCSV_loop.simps) (simp add: errors_Is_def Errorf_w_w_def)
qed

theorem AdaptTemplateToCSV_identity_witness:
  "\<not> sublist ''{{'' ''Hello, { world }}'' \<and>
   AdaptTemplateToCSV insertionSortLessFunc test_dataset
       (test_template_file ''Hello, { world }}'') =
     (Returns ''Hello, { world }}'', test_dataset)"
  using AdaptTemplateToCSV_identity
    [of "test_template_file ''Hello, { world }}''" insertionSortLessFunc test_dataset]
  by (simp add: test_template_file_def sublist_code)

subsection \<open>Rewriting the actions\<close>

lemma strings_Trim_append_cutset:
  assumes "set s \<subseteq> set cs"
  shows "strings_Trim (a @ s) cs = strings_Trim a cs"
proof (cases "\<forall>x\<in>set a. x \<in> set cs")
  case True
  then have eq: "dropWhile (\<lambda>c. c \<in> set cs) (a @ s) = []"
    "dropWhile (\<lambda>c. c \<in> set cs) a = []"
    using assms by (auto simp: dropWhile_eq_Nil_conv)
  show ?thesis
    unfolding strings_Trim_def eq ..
next
  case False
  then obtain x where "x \<in> set a" "x \<notin> set cs"
    by blast
  then have "dropWhile (\<lambda>c. c \<in> set cs) (a @ s) = dropWhile (\<lambda>c. c \<in> set cs) a @ s"
    by (simp add: dropWhile_append1)
  moreover have "dropWhile (\<lambda>c. c \<in> set cs) (rev s @ ys) = dropWhile (\<lambda>c. c \<in> set cs) ys" for ys
    using assms by (intro dropWhile_append2) auto
  ultimately show ?thesis
    by (simp add: strings_Trim_def)
qed

lemma Trim_action_end: 
  "strings_Trim (a @ ''}}'') [CHR '' '', CHR 0x09, CHR 0x0A, CHR ''.'', CHR ''}''] = candidate_name a"
  unfolding candidate_name_def by (rule strings_Trim_append_cutset) simp

lemma FindKeyIndex_resolved:
  assumes "index_built pdqsort hc" and "k \<in> set (header hc)"
    and srt: "sorts_by_key pdqsort"
  shows "fst (FindKeyIndex pdqsort hc k) = Returns (resolved pdqsort (header hc) k)"
    and "0 \<le> resolved pdqsort (header hc) k"
    and "nat (resolved pdqsort (header hc) k) < length (header hc)"
    and "header hc ! nat (resolved pdqsort (header hc) k) = k"
proof -
  have fresh: "index_built pdqsort \<lparr>header = header hc, sorted_header = None\<rparr>"
    by (simp add: index_built_def)
  have same: "fst (FindKeyIndex pdqsort hc k) =
      fst (FindKeyIndex pdqsort \<lparr>header = header hc, sorted_header = None\<rparr> k)"
    using FindKeyIndex_result [OF assms(1), of k] FindKeyIndex_result [OF fresh, of k] by simp
  from FindKeyIndex_present [OF assms] obtain p where
    p: "p < length (header hc)" "header hc ! p = k" "fst (FindKeyIndex pdqsort hc k) = Returns (int p)"
    by blast
  from same p(3) have "fst (FindKeyIndex pdqsort \<lparr>header = header hc, sorted_header = None\<rparr> k)
      = Returns (int p)"
    by simp
  then have r: "resolved pdqsort (header hc) k = int p"
    unfolding resolved_def by simp
  with p show "fst (FindKeyIndex pdqsort hc k) = Returns (resolved pdqsort (header hc) k)"
    and "0 \<le> resolved pdqsort (header hc) k"
    and "nat (resolved pdqsort (header hc) k) < length (header hc)"
    and "header hc ! nat (resolved pdqsort (header hc) k) = k"
    by simp_all
qed

lemma index_built_after:
  "index_built pdqsort (hc\<lparr>sorted_header := Some (built_index pdqsort (header hc))\<rparr>)"
  by (simp add: index_built_def)

text \<open>One round of the loop on an action whose candidate name is a header name.\<close>

lemma AdaptTemplateToCSV_loop_step:
  assumes "index_built pdqsort (csv_header c)"
    and "well_delimited (t, a)"
    and "candidate_name a \<in> set (header (csv_header c))"
    and srt: "sorts_by_key pdqsort"
  shows "AdaptTemplateToCSV_loop pdqsort c results (t @ ''{{'' @ a @ ''}}'' @ r) =
     AdaptTemplateToCSV_loop pdqsort
       (c\<lparr>csv_header := (csv_header c)\<lparr>sorted_header :=
            Some (built_index pdqsort (header (csv_header c)))\<rparr>\<rparr>)
       (results @ t @ ''{{ index . ''
          @ Sprint_d (resolved pdqsort (header (csv_header c)) (candidate_name a)) @ '' }}'')
       r"
proof -
  from assms(2) have "readUntilNextTemplateAction (t @ ''{{'' @ a @ ''}}'' @ r)
      = (t @ ''{{'', None, a @ ''}}'' @ r)"
    using readUntilNextTemplateAction_loop_open [of "[]" t "a @ ''}}'' @ r"]
    by (simp add: well_delimited_def readUntilNextTemplateAction_def)
  moreover from assms(2) have "readUntilNextTemplateActionEnd (a @ ''}}'' @ r)
      = (a @ ''}}'', None, r)"
    using readUntilNextTemplateActionEnd_loop_close [of "[]" a r]
    by (simp add: well_delimited_def readUntilNextTemplateActionEnd_def)
  moreover have "FindKeyIndex pdqsort (csv_header c) (candidate_name a) =
      (Returns (resolved pdqsort (header (csv_header c)) (candidate_name a)),
       (csv_header c)\<lparr>sorted_header := Some (built_index pdqsort (header (csv_header c)))\<rparr>)"
    using FindKeyIndex_resolved(1) [OF assms(1,3) srt]
      FindKeyIndex_state [OF assms(1), of "candidate_name a"]
    by (metis prod.collapse)
  moreover have "resolved pdqsort (header (csv_header c)) (candidate_name a) \<noteq> -1"
    using FindKeyIndex_resolved(2) [OF assms(1,3) srt] by simp
  ultimately show ?thesis
    by (subst AdaptTemplateToCSV_loop.simps) (simp add: Trim_action_end)
qed

lemma AdaptTemplateToCSV_loop_actions:
  assumes "index_built pdqsort (csv_header c)"
    and "\<forall>p\<in>set ps. well_delimited p \<and> candidate_name (snd p) \<in> set (header (csv_header c))"
    and srt: "sorts_by_key pdqsort"
  shows "\<exists>c'. AdaptTemplateToCSV_loop pdqsort c results (raw_actions ps @ r) =
        AdaptTemplateToCSV_loop pdqsort c'
          (results @ adapted_actions pdqsort (header (csv_header c)) ps) r
      \<and> index_built pdqsort (csv_header c') \<and> header (csv_header c') = header (csv_header c)
      \<and> rows c' = rows c \<and> csv_file c' = csv_file c"
  using assms(1,2)
proof (induction ps arbitrary: c results)
  case Nil
  then show ?case by auto
next
  case (Cons p ps)
  obtain t a where p: "p = (t, a)"
    by (cases p)
  define c1 where "c1 = c\<lparr>csv_header := (csv_header c)\<lparr>sorted_header :=
    Some (built_index pdqsort (header (csv_header c)))\<rparr>\<rparr>"
  have c1: "index_built pdqsort (csv_header c1)" "header (csv_header c1) = header (csv_header c)"
    "rows c1 = rows c" "csv_file c1 = csv_file c"
    by (simp_all add: c1_def index_built_def)
  from Cons.prems p have wd: "well_delimited (t, a)"
    and cand: "candidate_name a \<in> set (header (csv_header c))"
    by simp_all
  have step: "AdaptTemplateToCSV_loop pdqsort c results (raw_actions (p # ps) @ r) =
      AdaptTemplateToCSV_loop pdqsort c1
        (results @ t @ ''{{ index . ''
           @ Sprint_d (resolved pdqsort (header (csv_header c)) (candidate_name a)) @ '' }}'')
        (raw_actions ps @ r)"
    using AdaptTemplateToCSV_loop_step [OF Cons.prems(1) wd cand srt, of results "raw_actions ps @ r"]
    by (simp add: p c1_def)
  from Cons.prems(2) c1 have "\<forall>p\<in>set ps. well_delimited p
      \<and> candidate_name (snd p) \<in> set (header (csv_header c1))"
    by simp
  from Cons.IH [OF c1(1) this, of "results @ t @ ''{{ index . ''
      @ Sprint_d (resolved pdqsort (header (csv_header c)) (candidate_name a)) @ '' }}''"]
  obtain c' where "AdaptTemplateToCSV_loop pdqsort c1
        (results @ t @ ''{{ index . ''
           @ Sprint_d (resolved pdqsort (header (csv_header c)) (candidate_name a)) @ '' }}'')
        (raw_actions ps @ r) =
      AdaptTemplateToCSV_loop pdqsort c'
        ((results @ t @ ''{{ index . ''
           @ Sprint_d (resolved pdqsort (header (csv_header c)) (candidate_name a)) @ '' }}'')
         @ adapted_actions pdqsort (header (csv_header c1)) ps) r"
    and "index_built pdqsort (csv_header c')" "header (csv_header c') = header (csv_header c1)"
    and "rows c' = rows c1" "csv_file c' = csv_file c1"
    by blast
  with step c1 have "AdaptTemplateToCSV_loop pdqsort c results (raw_actions (p # ps) @ r) =
      AdaptTemplateToCSV_loop pdqsort c' (results @ adapted_actions pdqsort (header (csv_header c)) (p # ps)) r
    \<and> index_built pdqsort (csv_header c') \<and> header (csv_header c') = header (csv_header c)
    \<and> rows c' = rows c \<and> csv_file c' = csv_file c"
    by (simp add: p)
  then show ?case ..
qed

text \<open>
  Claim C3: when the candidate name of every action is a header name, adaptation
  succeeds; its output is the input with each action replaced by \<open>{{ index . i }}\<close>,
  where \<open>i\<close> is the position resolved for the action's candidate name, a position of
  the header that holds this name; the text outside the actions is copied unchanged.
  This holds for a header of any length and with repeated names, whatever sorted
  permutation \<open>sort.Slice\<close> leaves (\<open>sorts_by_key pdqsort\<close>): which of the positions of
  a repeated name is resolved depends on that permutation, as the second part of the
  witness shows.
  The templates of the form \<open>raw_actions ps @ final\<close> in the statement are all templates
  in which no action lacks its close delimiter (\<open>template_decomposition\<close> below).
\<close>

theorem AdaptTemplateToCSV_rewrites_actions:
  assumes "index_built pdqsort (csv_header c)"
    and "\<forall>p\<in>set ps. well_delimited p \<and> candidate_name (snd p) \<in> set (header (csv_header c))"
    and "\<not> sublist ''{{'' final"
    and "file_b raw_template = raw_actions ps @ final"
    and srt: "sorts_by_key pdqsort"
  shows "fst (AdaptTemplateToCSV pdqsort c raw_template) =
      Returns (adapted_actions pdqsort (header (csv_header c)) ps @ final)
    \<and> (\<forall>p\<in>set ps. 0 \<le> resolved pdqsort (header (csv_header c)) (candidate_name (snd p))
          \<and> nat (resolved pdqsort (header (csv_header c)) (candidate_name (snd p)))
              < length (header (csv_header c))
          \<and> header (csv_header c) ! nat (resolved pdqsort (header (csv_header c)) (candidate_name (snd p)))
              = candidate_name (snd p))"
proof
  from AdaptTemplateToCSV_loop_actions [OF assms(1,2) srt, of "[]" final] obtain c' where
    c': "AdaptTemplateToCSV_loop pdqsort c [] (raw_actions ps @ final) =
      AdaptTemplateToCSV_loop pdqsort c' (adapted_actions pdqsort (header (csv_header c)) ps) final"
    by auto
  have "readUntilNextTemplateAction final =
      (final,
       Some (Errorf_w_w errNoToken '': found '' (sentinel_error io_EOF)
               '' before template action''),
       [])"
    using readUntilNextTemplateAction_loop_none [of "[]" final] assms(3)
    by (simp add: readUntilNextTemplateAction_def)
  then have "AdaptTemplateToCSV_loop pdqsort c' (adapted_actions pdqsort (header (csv_header c)) ps) final =
      (Returns (adapted_actions pdqsort (header (csv_header c)) ps @ final), c')"
    by (subst AdaptTemplateToCSV_loop.simps) (simp add: errors_Is_def Errorf_w_w_def)
  with c' show "fst (AdaptTemplateToCSV pdqsort c raw_template) =
      Returns (adapted_actions pdqsort (header (csv_header c)) ps @ final)"
    by (simp add: AdaptTemplateToCSV_def assms(4))
next
  show "\<forall>p\<in>set ps. 0 \<le> resolved pdqsort (header (csv_header c)) (candidate_name (snd p))
      \<and> nat (resolved pdqsort (header (csv_header c)) (candidate_name (snd p)))
          < length (header (csv_header c))
      \<and> header (csv_header c) ! nat (resolved pdqsort (header (csv_header c)) (candidate_name (snd p)))
          = candidate_name (snd p)"
    using FindKeyIndex_resolved(2-4) [OF assms(1) _ srt] assms(2) by blast
qed

theorem AdaptTemplateToCSV_rewrites_actions_witness:
  "fst (AdaptTemplateToCSV insertionSortLessFunc test_dataset
          (test_template_file TheTestTemplate)) =
     Returns (''Hello, {{ index . 1 }}'' @ [CHR 0x0A, CHR 0x0A]
       @ ''Welcome to {{ index . 2 }}.'' @ [CHR 0x0A, CHR 0x0A] @ ''Thank you,'' @ [CHR 0x0A]
       @ ''{{ index . 0 }}'' @ [CHR 0x0A])
   \<and> header (csv_header test_dataset) ! 1 = ''RecipientName''
   \<and> fst (AdaptTemplateToCSV later_first wide_dataset (test_template_file ''{{ a }}'')) =
       Returns ''{{ index . 6 }}''
   \<and> header (csv_header wide_dataset) ! 6 = ''a''"
  using AdaptTemplateToCSV_rewrites_actions [of insertionSortLessFunc test_dataset
      "[(''Hello, '', '' RecipientName ''),
        ([CHR 0x0A, CHR 0x0A] @ ''Welcome to '', '' GroupName ''),
        (''.'' @ [CHR 0x0A, CHR 0x0A] @ ''Thank you,'' @ [CHR 0x0A], '' SenderName '')]"
      "[CHR 0x0A]" "test_template_file TheTestTemplate"]
    AdaptTemplateToCSV_rewrites_actions [of later_first wide_dataset
      "[([], '' a '')]" "[]" "test_template_file ''{{ a }}''"]
    insertionSortLessFunc_sorts later_first_sorts
  by (simp add: test_dataset_def wide_dataset_def test_template_file_def TheTestTemplate_def
    index_built_def well_delimited_def candidate_name_def strings_Trim_def resolved_def
    FindKeyIndex_def sort_Slice_def insertionSortLessFunc_def later_first_def header_fields_def
    sort_Search_def sort_Search_loop.simps Sprint_d_def decimal.simps sublist_code)

subsection \<open>Actions that name no header\<close>

lemma AdaptTemplateToCSV_loop_absent_key:
  assumes "index_built pdqsort (csv_header c)"
    and "well_delimited (t, a)"
    and "candidate_name a \<notin> set (header (csv_header c))"
    and srt: "sorts_by_key pdqsort"
  shows "fst (AdaptTemplateToCSV_loop pdqsort c results (t @ ''{{'' @ a @ ''}}'' @ r)) =
     (if \<forall>x\<in>set (header (csv_header c)). x < candidate_name a then
        Panics (index_out_of_range (int (length (header (csv_header c))))
          (length (header (csv_header c))))
      else
        Fails (Errorf_w ErrInvalidTemplate
          ('': key '' @ [CHR 0x27] @ candidate_name a @ [CHR 0x27]
             @ '' not found in csv header'')))"
proof -
  from assms(2) have open_found: "readUntilNextTemplateAction (t @ ''{{'' @ a @ ''}}'' @ r)
      = (t @ ''{{'', None, a @ ''}}'' @ r)"
    using readUntilNextTemplateAction_loop_open [of "[]" t "a @ ''}}'' @ r"]
    by (simp add: well_delimited_def readUntilNextTemplateAction_def)
  from assms(2) have close_found: "readUntilNextTemplateActionEnd (a @ ''}}'' @ r)
      = (a @ ''}}'', None, r)"
    using readUntilNextTemplateActionEnd_loop_close [of "[]" a r]
    by (simp add: well_delimited_def readUntilNextTemplateActionEnd_def)
  obtain res h where look: "FindKeyIndex pdqsort (csv_header c) (candidate_name a) = (res, h)"
    by (cases "FindKeyIndex pdqsort (csv_header c) (candidate_name a)")
  show ?thesis
  proof (cases "\<forall>x\<in>set (header (csv_header c)). x < candidate_name a")
    case True
    from FindKeyIndex_beyond [OF assms(1) True srt] look
    have "res = Panics (index_out_of_range (int (length (header (csv_header c))))
        (length (header (csv_header c))))"
      by simp
    with True open_found close_found look show ?thesis
      by (subst AdaptTemplateToCSV_loop.simps) (simp add: Trim_action_end)
  next
    case False
    then obtain x where "x \<in> set (header (csv_header c))" "\<not> x < candidate_name a"
      by blast
    with assms(3) have "\<exists>h\<in>set (header (csv_header c)). candidate_name a < h"
      by (metis not_less_iff_gr_or_eq)
    from FindKeyIndex_absent [OF assms(1,3) this srt] look have "res = Returns (-1)"
      by simp
    with False open_found close_found look show ?thesis
      by (subst AdaptTemplateToCSV_loop.simps) (simp add: Trim_action_end)
  qed
qed

lemma AdaptTemplateToCSV_absent_key:
  assumes "index_built pdqsort (csv_header c)"
    and "\<forall>p\<in>set ps. well_delimited p \<and> candidate_name (snd p) \<in> set (header (csv_header c))"
    and "well_delimited (t, a)"
    and "candidate_name a \<notin> set (header (csv_header c))"
    and "file_b raw_template = raw_actions ps @ t @ ''{{'' @ a @ ''}}'' @ r"
    and srt: "sorts_by_key pdqsort"
  shows "fst (AdaptTemplateToCSV pdqsort c raw_template) =
     (if \<forall>x\<in>set (header (csv_header c)). x < candidate_name a then
        Panics (index_out_of_range (int (length (header (csv_header c))))
          (length (header (csv_header c))))
      else
        Fails (Errorf_w ErrInvalidTemplate
          ('': key '' @ [CHR 0x27] @ candidate_name a @ [CHR 0x27]
             @ '' not found in csv header'')))"
proof -
  from AdaptTemplateToCSV_loop_actions [OF assms(1,2) srt, of "[]" "t @ ''{{'' @ a @ ''}}'' @ r"]
  obtain c' where c': "AdaptTemplateToCSV_loop pdqsort c [] (raw_actions ps @ t @ ''{{'' @ a @ ''}}'' @ r) =
      AdaptTemplateToCSV_loop pdqsort c' (adapted_actions pdqsort (header (csv_header c)) ps)
        (t @ ''{{'' @ a @ ''}}'' @ r)"
    and "index_built pdqsort (csv_header c')" and hdr: "header (csv_header c') = header (csv_header c)"
    by auto
  from AdaptTemplateToCSV_loop_absent_key [OF this(2) assms(3) _ srt, of
      "adapted_actions pdqsort (header (csv_header c)) ps" r] assms(4) c' hdr
  show ?thesis
    by (simp add: AdaptTemplateToCSV_def assms(5))
qed

text \<open>
  Claim C4: a template with a placeholder whose candidate name is absent from the header
  is refused with an \<open>ErrInvalidTemplate\<close> error that names the key, and no adapted
  bytes are returned. By \<open>AdaptTemplateToCSV_absent_key\<close> the code does so unless the
  key sorts after every header name; then the lookup panics (see C1) and so does the
  adaptation. With the header of the package's test and the template
  \<open>Hello, {{ Zzz }}\<close>:
\<close>

theorem AdaptTemplateToCSV_panics_on_absent_key:
  "fst (AdaptTemplateToCSV pdqsort test_dataset (test_template_file ''Hello, {{ Zzz }}''))
     = Panics (index_out_of_range 3 3)"
  by code_simp

subsection \<open>Actions without a close delimiter\<close>

lemma readUntilNextTemplateAction_loop_Cons:
  "readUntilNextTemplateAction_loop buf (c # r) =
     (if suffix ''{{'' (buf @ [c]) then (buf @ [c], None, r)
      else readUntilNextTemplateAction_loop (buf @ [c]) r)"
  by (simp add: Let_def)

lemma readUntilNextTemplateActionEnd_loop_Cons:
  "readUntilNextTemplateActionEnd_loop buf (c # r) =
     (if suffix ''}}'' (buf @ [c]) then (buf @ [c], None, r)
      else readUntilNextTemplateActionEnd_loop (buf @ [c]) r)"
  by (simp add: Let_def)

lemma readUntilNextTemplateAction_loop_shape:
  "readUntilNextTemplateAction_loop buf inp = (got, err, r) \<Longrightarrow> \<exists>g. got = buf @ g \<and> inp = g @ r"
proof (induction inp arbitrary: buf)
  case Nil
  then show ?case by simp
next
  case (Cons c inp)
  show ?case
  proof (cases "suffix ''{{'' (buf @ [c])")
    case True
    with Cons.prems have "(buf @ [c], None, inp) = (got, err, r)"
      by (simp only: readUntilNextTemplateAction_loop_Cons if_True)
    then show ?thesis
      by auto
  next
    case False
    with Cons.prems have "readUntilNextTemplateAction_loop (buf @ [c]) inp = (got, err, r)"
      by (simp only: readUntilNextTemplateAction_loop_Cons if_False)
    from Cons.IH [OF this] show ?thesis
      by auto
  qed
qed

lemma readUntilNextTemplateActionEnd_loop_shape:
  "readUntilNextTemplateActionEnd_loop buf inp = (got, err, r) \<Longrightarrow>
     \<exists>g. got = buf @ g \<and> inp = g @ r \<and> (err = None \<longrightarrow> suffix ''}}'' got)"
proof (induction inp arbitrary: buf)
  case Nil
  then show ?case by auto
next
  case (Cons c inp)
  show ?case
  proof (cases "suffix ''}}'' (buf @ [c])")
    case True
    with Cons.prems have "(buf @ [c], None, inp) = (got, err, r)"
      by (simp only: readUntilNextTemplateActionEnd_loop_Cons if_True)
    with True show ?thesis
      by auto
  next
    case False
    with Cons.prems have "readUntilNextTemplateActionEnd_loop (buf @ [c]) inp = (got, err, r)"
      by (simp only: readUntilNextTemplateActionEnd_loop_Cons if_False)
    from Cons.IH [OF this] show ?thesis
      by auto
  qed
qed

lemma readUntilNextTemplateAction_loop_finds:
  "\<not> sublist ''{{'' buf \<Longrightarrow> sublist ''{{'' (buf @ inp) \<Longrightarrow>
     \<exists>got r. readUntilNextTemplateAction_loop buf inp = (got, None, r)"
proof (induction inp arbitrary: buf)
  case Nil
  then show ?case by simp
next
  case (Cons c inp)
  show ?case
  proof (cases "suffix ''{{'' (buf @ [c])")
    case True
    then have "readUntilNextTemplateAction_loop buf (c # inp) = (buf @ [c], None, inp)"
      by (simp only: readUntilNextTemplateAction_loop_Cons if_True)
    then show ?thesis
      by blast
  next
    case False
    with Cons.prems(1) have "\<not> sublist ''{{'' (buf @ [c])"
      by (simp only: sublist_snoc [of "''{{''" buf c] simp_thms)
    moreover from Cons.prems(2) have "sublist ''{{'' ((buf @ [c]) @ inp)"
      by simp
    ultimately have "\<exists>got r. readUntilNextTemplateAction_loop (buf @ [c]) inp = (got, None, r)"
      by (rule Cons.IH)
    with False show ?thesis
      by (simp only: readUntilNextTemplateAction_loop_Cons if_False)
  qed
qed

text \<open>Behind any close delimiter, an unterminated input is still unterminated.\<close>

lemma unterminated_after_close:
  assumes "unterminated (x @ ''}}'' @ r)"
  shows "unterminated r"
proof -
  from assms obtain p s where eq: "x @ ''}}'' @ r = p @ ''{{'' @ s" and s: "\<not> sublist ''}}'' s"
    by (auto simp: unterminated_def)
  from eq obtain us where "x = p @ us \<and> us @ ''}}'' @ r = ''{{'' @ s
      \<or> x @ us = p \<and> ''}}'' @ r = us @ ''{{'' @ s"
    by (auto simp: append_eq_append_conv2)
  then show ?thesis
  proof
    assume a: "x = p @ us \<and> us @ ''}}'' @ r = ''{{'' @ s"
    then have "us @ ''}}'' @ r = ''{{'' @ s"
      by simp
    then have "\<exists>us'. s = us' @ ''}}'' @ r"
      by (cases us; cases "tl us") (auto simp: Cons_eq_append_conv)
    with s show ?thesis
      by (auto simp: sublist_def)
  next
    assume a: "x @ us = p \<and> ''}}'' @ r = us @ ''{{'' @ s"
    then have "''}}'' @ r = us @ ''{{'' @ s"
      by simp
    then have "\<exists>us'. r = us' @ ''{{'' @ s"
      by (cases us; cases "tl us") (auto simp: Cons_eq_append_conv)
    with s show ?thesis
      by (auto simp: unterminated_def)
  qed
qed

lemma FindKeyIndex_never_fails: "fst (FindKeyIndex pdqsort hc k) \<noteq> Fails e"
  by (simp add: FindKeyIndex_def Let_def)

lemma AdaptTemplateToCSV_loop_unterminated:
  assumes "unterminated reader"
  shows "(\<exists>e. fst (AdaptTemplateToCSV_loop pdqsort c results reader) = Fails e
            \<and> errors_Is e ErrInvalidTemplate)
    \<or> (\<exists>p. fst (AdaptTemplateToCSV_loop pdqsort c results reader) = Panics p)"
  using assms
proof (induction "length reader" arbitrary: c results reader rule: less_induct)
  case less
  from less.prems have "sublist ''{{'' ([] @ reader)"
    by (auto simp: unterminated_def sublist_def)
  then obtain got reader1 where
    s1: "readUntilNextTemplateAction reader = (got, None, reader1)"
    using readUntilNextTemplateAction_loop_finds [of "[]" reader]
    by (auto simp: readUntilNextTemplateAction_def)
  then have r1: "reader = got @ reader1"
    using readUntilNextTemplateAction_loop_shape [of "[]" reader got None reader1]
    by (simp add: readUntilNextTemplateAction_def)
  obtain got2 err2 reader2 where
    s2: "readUntilNextTemplateActionEnd reader1 = (got2, err2, reader2)"
    by (cases "readUntilNextTemplateActionEnd reader1")
  show ?case
  proof (cases err2)
    case (Some e)
    with s1 s2 show ?thesis
      by (subst (1 2) AdaptTemplateToCSV_loop.simps) (simp add: errors_Is_def Errorf_w_def)
  next
    case None
    with s2 have r2: "reader1 = got2 @ reader2" "suffix ''}}'' got2"
      using readUntilNextTemplateActionEnd_loop_shape [of "[]" reader1 got2 err2 reader2]
      by (simp_all add: readUntilNextTemplateActionEnd_def)
    then obtain x where "got2 = x @ ''}}''"
      by (auto simp: suffix_def)
    with r1 r2 have "reader = (got @ x) @ ''}}'' @ reader2"
      by simp
    with less.prems have un: "unterminated reader2"
      using unterminated_after_close by metis
    have shorter: "length reader2 < length reader"
      using r1 r2 \<open>got2 = x @ ''}}''\<close> by simp
    define k where "k = strings_Trim got2 [CHR '' '', CHR 0x09, CHR 0x0A, CHR ''.'', CHR ''}'']"
    obtain res h where look: "FindKeyIndex pdqsort (csv_header c) k = (res, h)"
      by (cases "FindKeyIndex pdqsort (csv_header c) k")
    show ?thesis
    proof (cases res)
      case (Panics p)
      with s1 s2 None look show ?thesis
        by (subst (1 2) AdaptTemplateToCSV_loop.simps) (simp add: k_def)
    next
      case (Fails e)
      with look FindKeyIndex_never_fails [of pdqsort "csv_header c" k e] show ?thesis
        by simp
    next
      case (Returns i)
      show ?thesis
      proof (cases "i = -1")
        case True
        with Returns s1 s2 None look show ?thesis
          by (subst (1 2) AdaptTemplateToCSV_loop.simps)
            (simp add: k_def errors_Is_def Errorf_w_def)
      next
        case False
        have "AdaptTemplateToCSV_loop pdqsort c results reader =
            AdaptTemplateToCSV_loop pdqsort (c\<lparr>csv_header := h\<rparr>)
              ((results @ got) @ '' index . '' @ Sprint_d i @ '' }}'') reader2"
          using Returns s1 s2 None look False
          by (subst AdaptTemplateToCSV_loop.simps) (simp add: k_def)
        with less.hyps [OF shorter un] show ?thesis
          by simp
      qed
    qed
  qed
qed

lemma AdaptTemplateToCSV_unterminated:
  assumes "unterminated (file_b raw_template)"
  shows "(\<exists>e. fst (AdaptTemplateToCSV pdqsort c raw_template) = Fails e \<and> errors_Is e ErrInvalidTemplate)
    \<or> (\<exists>p. fst (AdaptTemplateToCSV pdqsort c raw_template) = Panics p)"
  unfolding AdaptTemplateToCSV_def using assms by (rule AdaptTemplateToCSV_loop_unterminated)

lemma AdaptTemplateToCSV_unterminated_action:
  assumes "index_built pdqsort (csv_header c)"
    and "\<forall>p\<in>set ps. well_delimited p \<and> candidate_name (snd p) \<in> set (header (csv_header c))"
    and "\<not> sublist ''{{'' (t @ ''{'')"
    and "\<not> sublist ''}}'' s"
    and "file_b raw_template = raw_actions ps @ t @ ''{{'' @ s"
    and srt: "sorts_by_key pdqsort"
  shows "fst (AdaptTemplateToCSV pdqsort c raw_template) =
     Fails (Errorf_w ErrInvalidTemplate '': no action end found after opening {{'')"
proof -
  from AdaptTemplateToCSV_loop_actions [OF assms(1,2) srt, of "[]" "t @ ''{{'' @ s"]
  obtain c' where c': "AdaptTemplateToCSV_loop pdqsort c [] (raw_actions ps @ t @ ''{{'' @ s) =
      AdaptTemplateToCSV_loop pdqsort c' (adapted_actions pdqsort (header (csv_header c)) ps) (t @ ''{{'' @ s)"
    by auto
  from assms(3) have "readUntilNextTemplateAction (t @ ''{{'' @ s) = (t @ ''{{'', None, s)"
    using readUntilNextTemplateAction_loop_open [of "[]" t s]
    by (simp add: readUntilNextTemplateAction_def)
  moreover from assms(4) have "readUntilNextTemplateActionEnd s =
      (s, Some (Errorf_w_w errNoToken '': found '' (sentinel_error io_EOF)
                 '' before template action end''), [])"
    using readUntilNextTemplateActionEnd_loop_none [of "[]" s]
    by (simp add: readUntilNextTemplateActionEnd_def)
  ultimately have "fst (AdaptTemplateToCSV_loop pdqsort c' (adapted_actions pdqsort (header (csv_header c)) ps)
      (t @ ''{{'' @ s)) =
      Fails (Errorf_w ErrInvalidTemplate '': no action end found after opening {{'')"
    by (subst AdaptTemplateToCSV_loop.simps) simp
  with c' show ?thesis
    by (simp add: AdaptTemplateToCSV_def assms(5))
qed

lemma readUntilNextTemplateAction_loop_first:
  "readUntilNextTemplateAction_loop buf inp = (got, None, r) \<Longrightarrow> \<not> sublist ''{{'' buf \<Longrightarrow>
     \<exists>t. got = t @ ''{{'' \<and> \<not> sublist ''{{'' (t @ ''{'')"
proof (induction inp arbitrary: buf)
  case Nil
  then show ?case by simp
next
  case (Cons c inp)
  show ?case
  proof (cases "suffix ''{{'' (buf @ [c])")
    case True
    with Cons.prems(1) have got: "got = buf @ [c]"
      by (simp only: readUntilNextTemplateAction_loop_Cons if_True prod.inject)
    from True obtain t where t: "buf @ [c] = t @ ''{{''"
      by (auto simp: suffix_def)
    then have "buf = t @ ''{''"
      by (metis append_assoc append_Cons append_Nil butlast_snoc)
    with Cons.prems(2) got t show ?thesis
      by auto
  next
    case False
    with Cons.prems(1) have "readUntilNextTemplateAction_loop (buf @ [c]) inp = (got, None, r)"
      by (simp only: readUntilNextTemplateAction_loop_Cons if_False)
    moreover from False Cons.prems(2) have "\<not> sublist ''{{'' (buf @ [c])"
      by (simp only: sublist_snoc [of "''{{''" buf c] simp_thms)
    ultimately show ?thesis
      by (rule Cons.IH)
  qed
qed

lemma readUntilNextTemplateActionEnd_loop_first:
  "readUntilNextTemplateActionEnd_loop buf inp = (got, None, r) \<Longrightarrow> \<not> sublist ''}}'' buf \<Longrightarrow>
     \<exists>a. got = a @ ''}}'' \<and> \<not> sublist ''}}'' (a @ ''}'')"
proof (induction inp arbitrary: buf)
  case Nil
  then show ?case by simp
next
  case (Cons c inp)
  show ?case
  proof (cases "suffix ''}}'' (buf @ [c])")
    case True
    with Cons.prems(1) have got: "got = buf @ [c]"
      by (simp only: readUntilNextTemplateActionEnd_loop_Cons if_True prod.inject)
    from True obtain a where a: "buf @ [c] = a @ ''}}''"
      by (auto simp: suffix_def)
    then have "buf = a @ ''}''"
      by (metis append_assoc append_Cons append_Nil butlast_snoc)
    with Cons.prems(2) got a show ?thesis
      by auto
  next
    case False
    with Cons.prems(1) have "readUntilNextTemplateActionEnd_loop (buf @ [c]) inp = (got, None, r)"
      by (simp only: readUntilNextTemplateActionEnd_loop_Cons if_False)
    moreover from False Cons.prems(2) have "\<not> sublist ''}}'' (buf @ [c])"
      by (simp only: sublist_snoc [of "''}}''" buf c] simp_thms)
    ultimately show ?thesis
      by (rule Cons.IH)
  qed
qed

lemma readUntilNextTemplateActionEnd_loop_finds:
  "\<not> sublist ''}}'' buf \<Longrightarrow> sublist ''}}'' (buf @ inp) \<Longrightarrow>
     \<exists>got r. readUntilNextTemplateActionEnd_loop buf inp = (got, None, r)"
proof (induction inp arbitrary: buf)
  case Nil
  then show ?case by simp
next
  case (Cons c inp)
  show ?case
  proof (cases "suffix ''}}'' (buf @ [c])")
    case True
    then have "readUntilNextTemplateActionEnd_loop buf (c # inp) = (buf @ [c], None, inp)"
      by (simp only: readUntilNextTemplateActionEnd_loop_Cons if_True)
    then show ?thesis
      by blast
  next
    case False
    with Cons.prems(1) have "\<not> sublist ''}}'' (buf @ [c])"
      by (simp only: sublist_snoc [of "''}}''" buf c] simp_thms)
    moreover from Cons.prems(2) have "sublist ''}}'' ((buf @ [c]) @ inp)"
      by simp
    ultimately have "\<exists>got r. readUntilNextTemplateActionEnd_loop (buf @ [c]) inp = (got, None, r)"
      by (rule Cons.IH)
    with False show ?thesis
      by (simp only: readUntilNextTemplateActionEnd_loop_Cons if_False)
  qed
qed

text \<open>
  Every template is unterminated or consists of well delimited actions and a final text
  without an open delimiter.
\<close>

lemma template_decomposition:
  assumes "\<not> unterminated b"
  shows "\<exists>ps final. b = raw_actions ps @ final \<and> (\<forall>p\<in>set ps. well_delimited p)
    \<and> \<not> sublist ''{{'' final"
  using assms
proof (induction "length b" arbitrary: b rule: less_induct)
  case less
  show ?case
  proof (cases "sublist ''{{'' b")
    case False
    then have "b = raw_actions [] @ b \<and> (\<forall>p\<in>set []. well_delimited p) \<and> \<not> sublist ''{{'' b"
      by simp
    then show ?thesis
      by blast
  next
    case True
    then obtain got r1 where s1: "readUntilNextTemplateAction_loop [] b = (got, None, r1)"
      using readUntilNextTemplateAction_loop_finds [of "[]" b] by auto
    then have b1: "b = got @ r1"
      using readUntilNextTemplateAction_loop_shape [of "[]" b got None r1] by simp
    from s1 obtain t where t: "got = t @ ''{{''" "\<not> sublist ''{{'' (t @ ''{'')"
      using readUntilNextTemplateAction_loop_first [of "[]" b got r1] by auto
    obtain got2 err2 r2 where s2: "readUntilNextTemplateActionEnd_loop [] r1 = (got2, err2, r2)"
      by (cases "readUntilNextTemplateActionEnd_loop [] r1")
    have "sublist ''}}'' r1"
    proof (rule ccontr)
      assume "\<not> sublist ''}}'' r1"
      with b1 t(1) have "unterminated b"
        by (auto simp: unterminated_def)
      with less.prems show False ..
    qed
    then have "err2 = None"
      using readUntilNextTemplateActionEnd_loop_finds [of "[]" r1] s2 by auto
    with s2 obtain a where a: "got2 = a @ ''}}''" "\<not> sublist ''}}'' (a @ ''}'')"
      using readUntilNextTemplateActionEnd_loop_first [of "[]" r1 got2 r2] by auto
    from s2 have b2: "r1 = got2 @ r2"
      using readUntilNextTemplateActionEnd_loop_shape [of "[]" r1 got2 err2 r2] by simp
    have whole: "b = t @ ''{{'' @ a @ ''}}'' @ r2"
      using b1 b2 t(1) a(1) by simp
    have "\<not> unterminated r2"
    proof
      assume "unterminated r2"
      then obtain p s where "r2 = p @ ''{{'' @ s" "\<not> sublist ''}}'' s"
        by (auto simp: unterminated_def)
      with whole have "b = (t @ ''{{'' @ a @ ''}}'' @ p) @ ''{{'' @ s \<and> \<not> sublist ''}}'' s"
        by simp
      then have "unterminated b"
        unfolding unterminated_def by blast
      with less.prems show False ..
    qed
    moreover have "length r2 < length b"
      using whole by simp
    ultimately obtain ps final where rest: "r2 = raw_actions ps @ final"
      "\<forall>p\<in>set ps. well_delimited p" "\<not> sublist ''{{'' final"
      using less.hyps by blast
    have "b = raw_actions ((t, a) # ps) @ final"
      using whole rest(1) by simp
    moreover have "\<forall>p\<in>set ((t, a) # ps). well_delimited p"
      using rest(2) t(2) a(2) by (simp add: well_delimited_def)
    ultimately show ?thesis
      using rest(3) by blast
  qed
qed

text \<open>
  Claim C5: a template with an open delimiter and no close delimiter after it is refused
  with an \<open>ErrInvalidTemplate\<close> error. By \<open>AdaptTemplateToCSV_unterminated\<close> the code
  never returns adapted bytes for such a template: it fails with \<open>ErrInvalidTemplate\<close>
  or it panics. It panics when a complete action before the unterminated one names a
  key that sorts after every header name: the lookup of that key panics (see C1) before
  the missing delimiter is noticed.
\<close>

theorem AdaptTemplateToCSV_panics_before_unterminated_action:
  "fst (AdaptTemplateToCSV pdqsort test_dataset (test_template_file ''Hello, {{ Zzz }} and {{ SenderName''))
     = Panics (index_out_of_range 3 3)"
  by code_simp

subsection \<open>The dataset after adaptation\<close>

lemma FindKeyIndex_header: "header (snd (FindKeyIndex pdqsort hc k)) = header hc"
  by (simp add: FindKeyIndex_def Let_def)

lemma FindKeyIndex_index_built: "index_built pdqsort hc \<Longrightarrow> index_built pdqsort (snd (FindKeyIndex pdqsort hc k))"
  by (simp add: FindKeyIndex_state index_built_def)

text \<open>The adapter changes nothing of the dataset but the index stored in its header.\<close>

lemma AdaptTemplateToCSV_loop_dataset:
  "rows (snd (AdaptTemplateToCSV_loop pdqsort c results reader)) = rows c
   \<and> csv_file (snd (AdaptTemplateToCSV_loop pdqsort c results reader)) = csv_file c
   \<and> header (csv_header (snd (AdaptTemplateToCSV_loop pdqsort c results reader))) = header (csv_header c)
   \<and> (index_built pdqsort (csv_header c) \<longrightarrow>
        index_built pdqsort (csv_header (snd (AdaptTemplateToCSV_loop pdqsort c results reader))))"
proof (induction "length reader" arbitrary: c results reader rule: less_induct)
  case less
  obtain got err reader1 where s1: "readUntilNextTemplateAction reader = (got, err, reader1)"
    by (cases "readUntilNextTemplateAction reader")
  show ?case
  proof (cases err)
    case (Some e)
    with s1 show ?thesis
      by (subst (1 2 3 4) AdaptTemplateToCSV_loop.simps) simp
  next
    case None
    obtain got2 err2 reader2 where
      s2: "readUntilNextTemplateActionEnd reader1 = (got2, err2, reader2)"
      by (cases "readUntilNextTemplateActionEnd reader1")
    show ?thesis
    proof (cases err2)
      case (Some e)
      with s1 None s2 show ?thesis
        by (subst (1 2 3 4) AdaptTemplateToCSV_loop.simps) simp
    next
      case n2: None
      have shorter: "length reader2 < length reader"
        using s1 s2 None n2
          readUntilNextTemplateAction_loop_shorter [of "[]" reader got reader1]
          readUntilNextTemplateActionEnd_loop_shorter [of "[]" reader1 got2 reader2]
        by (simp add: readUntilNextTemplateAction_def readUntilNextTemplateActionEnd_def)
      define k where "k = strings_Trim got2 [CHR '' '', CHR 0x09, CHR 0x0A, CHR ''.'', CHR ''}'']"
      obtain res h where look: "FindKeyIndex pdqsort (csv_header c) k = (res, h)"
        by (cases "FindKeyIndex pdqsort (csv_header c) k")
      then have h: "header h = header (csv_header c)"
        "index_built pdqsort (csv_header c) \<longrightarrow> index_built pdqsort h"
        using FindKeyIndex_header [of pdqsort "csv_header c" k]
          FindKeyIndex_index_built [of pdqsort "csv_header c" k]
        by simp_all
      define c' where "c' = c\<lparr>csv_header := h\<rparr>"
      have c': "rows c' = rows c" "csv_file c' = csv_file c"
        "header (csv_header c') = header (csv_header c)"
        "index_built pdqsort (csv_header c) \<longrightarrow> index_built pdqsort (csv_header c')"
        using h by (simp_all add: c'_def)
      show ?thesis
      proof (cases "\<exists>i. res = Returns i \<and> i \<noteq> -1")
        case True
        then obtain i where "res = Returns i" "i \<noteq> -1"
          by blast
        then have "AdaptTemplateToCSV_loop pdqsort c results reader =
            AdaptTemplateToCSV_loop pdqsort c' ((results @ got) @ '' index . '' @ Sprint_d i @ '' }}'')
              reader2"
          using s1 s2 None n2 look
          by (subst AdaptTemplateToCSV_loop.simps) (simp add: k_def c'_def)
        with less.hyps [OF shorter, of c'] c' show ?thesis
          by simp
      next
        case False
        then have "snd (AdaptTemplateToCSV_loop pdqsort c results reader) = c'"
          using s1 s2 None n2 look
          by (subst AdaptTemplateToCSV_loop.simps)
            (cases res; simp add: k_def c'_def)
        with c' show ?thesis
          by simp
      qed
    qed
  qed
qed

lemma NewTemplate_fresh:
  assumes "NewTemplate pdqsort Parse nm mt bs c = (Returns t, c')"
  shows "position t = 0 \<and> csv t = c' \<and> rows c' = rows c
    \<and> header (csv_header c') = header (csv_header c)
    \<and> (index_built pdqsort (csv_header c) \<longrightarrow> index_built pdqsort (csv_header c'))"
proof -
  from assms obtain f0 adapted tmpl where
    "AdaptTemplateToCSV pdqsort c f0 = (Returns adapted, c')"
    and t: "t = \<lparr>raw_file = f0, csv = c', raw_adapted_template = adapted,
      adapted_template = tmpl, position = 0\<rparr>"
    by (auto simp: NewTemplate_def split: outcome.splits prod.splits sum.splits)
  then have "c' = snd (AdaptTemplateToCSV_loop pdqsort c [] (file_b f0))"
    by (simp add: AdaptTemplateToCSV_def)
  with AdaptTemplateToCSV_loop_dataset [of pdqsort c "[]" "file_b f0"] t show ?thesis
    by simp
qed

section \<open>Properties of the dataset\<close>

lemma NewCSV_rows_header:
  "NewCSV_rows c0 rws = Returns c \<Longrightarrow>
     c = c0\<lparr>rows := rows c0 @ rws\<rparr>
     \<and> (\<forall>row\<in>set rws. length row = length (header (csv_header c0)))"
proof (induction rws arbitrary: c0)
  case Nil
  then show ?case by simp
next
  case (Cons row rws)
  from Cons.prems have len: "length row = length (header (csv_header c0))"
    and rest: "NewCSV_rows (c0\<lparr>rows := rows c0 @ [row]\<rparr>) rws = Returns c"
    by (simp_all add: Let_def Len_def split: if_splits)
  from Cons.IH [OF rest] len show ?case
    by simp
qed

lemma NewCSV_rows_uneven:
  "\<exists>row\<in>set rws. length row \<noteq> length (header (csv_header c0)) \<Longrightarrow>
     \<exists>e. NewCSV_rows c0 rws = Fails e \<and> errors_Is e ErrInvalidCSV"
proof (induction rws arbitrary: c0)
  case Nil
  then show ?case by simp
next
  case (Cons row rws)
  show ?case
  proof (cases "length row = length (header (csv_header c0))")
    case False
    then show ?thesis
      by (simp add: Let_def Len_def errors_Is_def Errorf_w_def)
  next
    case True
    with Cons.prems have "\<exists>x\<in>set rws.
        length x \<noteq> length (header (csv_header (c0\<lparr>rows := rows c0 @ [row]\<rparr>)))"
      by auto
    from Cons.IH [OF this] True show ?thesis
      by (simp add: Let_def Len_def)
  qed
qed

lemma NewFile_blank:
  "strings_TrimSpace nm = [] \<or> strings_TrimSpace mt = [] \<Longrightarrow>
     \<exists>e. NewFile nm mt bs = Fails e \<and> wraps e = [ErrInvalidFile]"
  by (auto simp: NewFile_def Let_def Errorf_w_def)

lemma NewFile_named:
  "strings_TrimSpace nm \<noteq> [] \<Longrightarrow> strings_TrimSpace mt \<noteq> [] \<Longrightarrow>
     NewFile nm mt bs =
       Returns \<lparr>name = strings_TrimSpace nm, mimetype = strings_TrimSpace mt, file_b = bs\<rparr>"
  by (simp add: NewFile_def Let_def)

text \<open>
  Claim C7 as stated: for every input whose bytes hold a body row of another width than
  the header, \<open>NewCSV\<close> fails with \<open>ErrInvalidCSV\<close>. It fails for \<open>uneven_csv\<close> under a
  blank file name: \<open>NewFile\<close> is called first and the error is \<open>ErrInvalidFile\<close>.
\<close>

theorem NewCSV_blank_name_counterexample:
  "csv_plain_Read uneven_csv = Inr ([''a'', ''b''], 2, [(2, [''1''])])
   \<and> NewCSV csv_plain_Read csv_plain_ReadAll '' '' ''text/csv'' uneven_csv
       = Fails (Err [ErrInvalidFile] ''invalid file: empty filename'')
   \<and> \<not> errors_Is (Err [ErrInvalidFile] ''invalid file: empty filename'') ErrInvalidCSV"
  by code_simp

text \<open>
  Claim C7, amended: for every input with a name and a mimetype that are not blank,
  whose header is read and whose body cannot be read or holds a row of another length
  than the header, \<open>NewCSV\<close> fails with an error that is \<open>ErrInvalidCSV\<close>; with a blank
  name or mimetype it fails with \<open>ErrInvalidFile\<close> and not \<open>ErrInvalidCSV\<close>, whatever the
  bytes; in both cases no dataset is returned. When \<open>NewCSV\<close> returns a dataset, every
  row has the length of the header (and the header's index is not built yet).
\<close>

theorem NewCSV_rejects_uneven_rows:
  "(strings_TrimSpace nm \<noteq> [] \<and> strings_TrimSpace mt \<noteq> [] \<and> Read bs = Inr (hdr, r)
      \<and> (case ReadAll r of Inl e \<Rightarrow> True | Inr rws \<Rightarrow> \<exists>row\<in>set rws. length row \<noteq> length hdr)
    \<longrightarrow> (\<exists>e. NewCSV Read ReadAll nm mt bs = Fails e \<and> errors_Is e ErrInvalidCSV))
   \<and> (strings_TrimSpace nm = [] \<or> strings_TrimSpace mt = []
    \<longrightarrow> (\<exists>e. NewCSV Read ReadAll nm mt bs = Fails e \<and> errors_Is e ErrInvalidFile
          \<and> \<not> errors_Is e ErrInvalidCSV))
   \<and> (NewCSV Read ReadAll nm mt bs = Returns c
    \<longrightarrow> (\<forall>row\<in>set (rows c). length row = length (header (csv_header c)))
        \<and> sorted_header (csv_header c) = None)"
proof (intro conjI impI)
  assume *: "strings_TrimSpace nm \<noteq> [] \<and> strings_TrimSpace mt \<noteq> [] \<and> Read bs = Inr (hdr, r)
      \<and> (case ReadAll r of Inl e \<Rightarrow> True | Inr rws \<Rightarrow> \<exists>row\<in>set rws. length row \<noteq> length hdr)"
  then have named: "NewFile nm mt bs =
      Returns \<lparr>name = strings_TrimSpace nm, mimetype = strings_TrimSpace mt, file_b = bs\<rparr>"
    by (simp add: NewFile_named)
  show "\<exists>e. NewCSV Read ReadAll nm mt bs = Fails e \<and> errors_Is e ErrInvalidCSV"
  proof (cases "ReadAll r")
    case (Inl e)
    with * named show ?thesis
      by (simp add: NewCSV_def errors_Is_def Errorf_w_w_def)
  next
    case (Inr rws)
    with * have "\<exists>row\<in>set rws. length row \<noteq> length hdr"
      by simp
    then have "\<exists>e. NewCSV_rows
        \<lparr>csv_file = \<lparr>name = strings_TrimSpace nm, mimetype = strings_TrimSpace mt, file_b = bs\<rparr>,
         csv_header = \<lparr>header = hdr, sorted_header = None\<rparr>, rows = []\<rparr> rws = Fails e
        \<and> errors_Is e ErrInvalidCSV"
      by (intro NewCSV_rows_uneven) simp
    with * named Inr show ?thesis
      by (simp add: NewCSV_def)
  qed
next
  assume "strings_TrimSpace nm = [] \<or> strings_TrimSpace mt = []"
  from NewFile_blank [OF this, of bs] obtain e where
    "NewFile nm mt bs = Fails e" "wraps e = [ErrInvalidFile]"
    by blast
  then have "NewCSV Read ReadAll nm mt bs = Fails e \<and> errors_Is e ErrInvalidFile
      \<and> \<not> errors_Is e ErrInvalidCSV"
    by (simp add: NewCSV_def errors_Is_def)
  then show "\<exists>e. NewCSV Read ReadAll nm mt bs = Fails e \<and> errors_Is e ErrInvalidFile
      \<and> \<not> errors_Is e ErrInvalidCSV" ..
next
  assume ret: "NewCSV Read ReadAll nm mt bs = Returns c"
  then obtain f0 hdr r rws where "NewFile nm mt bs = Returns f0"
    and "NewCSV_rows \<lparr>csv_file = f0, csv_header = \<lparr>header = hdr, sorted_header = None\<rparr>,
      rows = []\<rparr> rws = Returns c"
    by (auto simp: NewCSV_def split: outcome.splits sum.splits)
  from NewCSV_rows_header [OF this(2)]
  show "\<forall>row\<in>set (rows c). length row = length (header (csv_header c))"
    and "sorted_header (csv_header c) = None"
    by simp_all
qed

lemma test_dataset_parsed:
  "NewCSV csv_plain_Read csv_plain_ReadAll ''test.csv'' ''text/csv'' TheTestCSV = Returns test_dataset"
  by code_simp

lemma uneven_rows_evaluated:
  "strings_TrimSpace ''test.csv'' = ''test.csv''"
  "strings_TrimSpace ''text/csv'' = ''text/csv''"
  "strings_TrimSpace '' '' = []"
  "csv_plain_Read uneven_csv = Inr ([''a'', ''b''], 2, [(2, [''1''])])"
  "csv_plain_ReadAll (2, [(2, [''1''])]) =
     Inl (Err [Foreign ''wrong number of fields''] ''record on line 2: wrong number of fields'')"
  "NewCSV csv_plain_Read csv_plain_ReadAll ''test.csv'' ''text/csv'' uneven_csv
       = Fails (Err [ErrInvalidCSV, Foreign ''wrong number of fields'']
           ''invalid csv: error reading csv body: record on line 2: wrong number of fields'')"
  "NewCSV csv_plain_Read (\<lambda>r. Inr (map snd (snd r))) ''test.csv'' ''text/csv'' uneven_csv
       = Fails (Err [ErrInvalidCSV]
           ''invalid csv: malformed body (row has 1 fields; header indicates 2)'')"
  "NewCSV csv_plain_Read csv_plain_ReadAll '' '' ''text/csv'' TheTestCSV
       = Fails (Err [ErrInvalidFile] ''invalid file: empty filename'')"
  by code_simp+

theorem NewCSV_rejects_uneven_rows_witness:
  "NewCSV csv_plain_Read csv_plain_ReadAll ''test.csv'' ''text/csv'' uneven_csv
       = Fails (Err [ErrInvalidCSV, Foreign ''wrong number of fields'']
           ''invalid csv: error reading csv body: record on line 2: wrong number of fields'')
   \<and> errors_Is (Err [ErrInvalidCSV, Foreign ''wrong number of fields'']
           ''invalid csv: error reading csv body: record on line 2: wrong number of fields'')
         ErrInvalidCSV
   \<and> NewCSV csv_plain_Read csv_plain_ReadAll '' '' ''text/csv'' TheTestCSV
       = Fails (Err [ErrInvalidFile] ''invalid file: empty filename'')
   \<and> NewCSV csv_plain_Read csv_plain_ReadAll ''test.csv'' ''text/csv'' TheTestCSV
       = Returns test_dataset
   \<and> list_all (\<lambda>row. length row = length (header (csv_header test_dataset)))
         (rows test_dataset)"
  using NewCSV_rejects_uneven_rows [of "''test.csv''" "''text/csv''" csv_plain_Read
      uneven_csv "[''a'', ''b'']" "(2, [(2, [''1''])])"
      csv_plain_ReadAll test_dataset]
    NewCSV_rejects_uneven_rows [of "'' ''" "''text/csv''" csv_plain_Read
      TheTestCSV "[]" "(0, [])" csv_plain_ReadAll test_dataset]
    NewCSV_rejects_uneven_rows [of "''test.csv''" "''text/csv''" csv_plain_Read
      TheTestCSV "[]" "(0, [])" csv_plain_ReadAll test_dataset]
  by (simp add: uneven_rows_evaluated test_dataset_parsed errors_Is_def list_all_iff)

section \<open>Properties of the renderer\<close>

lemma Next_exhausted:
  "length (rows (csv t)) \<le> position t \<Longrightarrow>
     Next t = (([], [], Some (Errorf_w io_EOF '': nothing else to do'')), t)"
  by (simp add: Next_def)

lemma Next_row:
  "position t < length (rows (csv t)) \<Longrightarrow>
     Next t =
       ((fst (adapted_template t (rows (csv t) ! position t)), rows (csv t) ! position t,
         snd (adapted_template t (rows (csv t) ! position t))),
        t\<lparr>position := position t + 1\<rparr>)"
  by (simp add: Next_def Let_def split: prod.splits)

lemma Next_times_eq:
  assumes "position t \<le> length (rows (csv t))"
  shows "Next_times n t =
     (map (\<lambda>k. if k < length (rows (csv t))
                then (fst (adapted_template t (rows (csv t) ! k)), rows (csv t) ! k,
                      snd (adapted_template t (rows (csv t) ! k)))
                else ([], [], Some (Errorf_w io_EOF '': nothing else to do'')))
        [position t..<position t + n],
      t\<lparr>position := min (position t + n) (length (rows (csv t)))\<rparr>)"
  using assms
proof (induction n arbitrary: t)
  case 0
  then show ?case
    by (simp add: min_def)
next
  case (Suc n)
  define F where "F = (\<lambda>k. if k < length (rows (csv t))
                then (fst (adapted_template t (rows (csv t) ! k)), rows (csv t) ! k,
                      snd (adapted_template t (rows (csv t) ! k)))
                else ([], [], Some (Errorf_w io_EOF '': nothing else to do'')))"
  show ?case
    unfolding F_def [symmetric]
  proof (cases "position t < length (rows (csv t))")
    case True
    define t' where "t' = t\<lparr>position := position t + 1\<rparr>"
    have t': "position t' = position t + 1" "csv t' = csv t"
      "adapted_template t' = adapted_template t"
      by (simp_all add: t'_def)
    with True have "position t' \<le> length (rows (csv t'))"
      by simp
    from Suc.IH [OF this]
    have "Next_times n t' =
        (map F [position t + 1..<position t + 1 + n],
         t'\<lparr>position := min (position t + 1 + n) (length (rows (csv t)))\<rparr>)"
      unfolding t' F_def .
    moreover have "t'\<lparr>position := min (position t + 1 + n) (length (rows (csv t)))\<rparr>
        = t\<lparr>position := min (position t + Suc n) (length (rows (csv t)))\<rparr>"
      by (simp add: t'_def)
    moreover have "Next t = (F (position t), t')"
      using Next_row [OF True] True by (simp add: F_def t'_def)
    moreover have "[position t..<position t + Suc n]
        = position t # [position t + 1..<position t + 1 + n]"
      by (simp add: upt_conv_Cons)
    ultimately show "Next_times (Suc n) t =
        (map F [position t..<position t + Suc n],
         t\<lparr>position := min (position t + Suc n) (length (rows (csv t)))\<rparr>)"
      by (simp only: Next_times.simps prod.case list.map)
  next
    case False
    with Suc.prems have eq: "position t = length (rows (csv t))"
      by simp
    then have "Next t = (F (position t), t)"
      by (simp add: Next_exhausted F_def)
    moreover from Suc.IH [OF Suc.prems]
    have "Next_times n t = (map F [position t..<position t + n], t)"
      unfolding F_def using eq by (simp add: min_def)
    moreover have "map F [position t..<position t + m] = replicate m (F (position t))" for m
      using eq by (induction m) (simp_all add: F_def replicate_append_same)
    moreover have "t\<lparr>position := min (position t + Suc n) (length (rows (csv t)))\<rparr> = t"
      using eq by (simp add: min_def)
    ultimately show "Next_times (Suc n) t =
        (map F [position t..<position t + Suc n],
         t\<lparr>position := min (position t + Suc n) (length (rows (csv t)))\<rparr>)"
      by (simp only: Next_times.simps prod.case replicate_Suc)
  qed
qed

lemma ExecuteAll_loop_all_rendered:
  assumes "position t \<le> length (rows (csv t))"
    and "\<forall>k. position t \<le> k \<and> k < length (rows (csv t)) \<longrightarrow>
           snd (adapted_template t (rows (csv t) ! k)) = None"
  shows "ExecuteAll_loop templateoutput rws t =
     ((templateoutput @ map (\<lambda>row. fst (adapted_template t row)) (drop (position t) (rows (csv t))),
       rws @ drop (position t) (rows (csv t)), None),
      t\<lparr>position := length (rows (csv t))\<rparr>)"
  using assms
proof (induction "length (rows (csv t)) - position t" arbitrary: t templateoutput rws)
  case 0
  then have eq: "position t = length (rows (csv t))"
    by simp
  then have "Next t = (([], [], Some (Errorf_w io_EOF '': nothing else to do'')), t)"
    by (simp add: Next_exhausted)
  moreover have "t\<lparr>position := length (rows (csv t))\<rparr> = t"
    using eq by simp
  ultimately show ?case
    using eq by (subst ExecuteAll_loop.simps) (simp add: errors_Is_def Errorf_w_def)
next
  case (Suc n)
  then have lt: "position t < length (rows (csv t))"
    by simp
  define t' where "t' = t\<lparr>position := position t + 1\<rparr>"
  have t': "position t' = position t + 1" "csv t' = csv t"
    "adapted_template t' = adapted_template t"
    by (simp_all add: t'_def)
  define row where "row = rows (csv t) ! position t"
  have ok: "snd (adapted_template t row) = None"
    using Suc.prems(2) lt by (simp add: row_def)
  have nxt: "Next t = ((fst (adapted_template t row), row, None), t')"
    using Next_row [OF lt] ok by (simp add: row_def t'_def)
  have "n = length (rows (csv t')) - position t'"
    using Suc.hyps(2) by (simp add: t')
  moreover have "position t' \<le> length (rows (csv t'))"
    using lt by (simp add: t')
  moreover have "\<forall>k. position t' \<le> k \<and> k < length (rows (csv t')) \<longrightarrow>
      snd (adapted_template t' (rows (csv t') ! k)) = None"
    using Suc.prems(2) by (simp add: t')
  ultimately have "ExecuteAll_loop (templateoutput @ [fst (adapted_template t row)]) (rws @ [row]) t' =
     (((templateoutput @ [fst (adapted_template t row)])
         @ map (\<lambda>row. fst (adapted_template t' row)) (drop (position t') (rows (csv t'))),
       (rws @ [row]) @ drop (position t') (rows (csv t')), None),
      t'\<lparr>position := length (rows (csv t'))\<rparr>)"
    by (rule Suc.hyps(1))
  moreover have "drop (position t) (rows (csv t)) = row # drop (position t + 1) (rows (csv t))"
    using lt by (simp add: row_def Cons_nth_drop_Suc)
  moreover have "t'\<lparr>position := length (rows (csv t))\<rparr> = t\<lparr>position := length (rows (csv t))\<rparr>"
    by (simp add: t'_def)
  ultimately show ?case
    using nxt by (subst ExecuteAll_loop.simps) (simp add: t')
qed

lemma ExecuteAll_loop_first_error:
  assumes "position t \<le> k" and "k < length (rows (csv t))"
    and "\<forall>j. position t \<le> j \<and> j < k \<longrightarrow> snd (adapted_template t (rows (csv t) ! j)) = None"
    and "snd (adapted_template t (rows (csv t) ! k)) = Some e"
  shows "ExecuteAll_loop templateoutput rws t =
     ((templateoutput @ map (\<lambda>row. fst (adapted_template t row))
          (take (k - position t) (drop (position t) (rows (csv t)))),
       rws @ take (k - position t) (drop (position t) (rows (csv t))),
       if errors_Is e io_EOF then None else Some e),
      t\<lparr>position := k + 1\<rparr>)"
  using assms
proof (induction "k - position t" arbitrary: t templateoutput rws)
  case 0
  then have eq: "position t = k"
    by simp
  with "0.prems" have "Next t = ((fst (adapted_template t (rows (csv t) ! k)), rows (csv t) ! k, Some e),
      t\<lparr>position := k + 1\<rparr>)"
    using Next_row [of t] by simp
  then show ?case
    using eq by (subst ExecuteAll_loop.simps) simp
next
  case (Suc n)
  then have lt: "position t < k" "position t < length (rows (csv t))"
    by simp_all
  define t' where "t' = t\<lparr>position := position t + 1\<rparr>"
  have t': "position t' = position t + 1" "csv t' = csv t"
    "adapted_template t' = adapted_template t"
    by (simp_all add: t'_def)
  define row where "row = rows (csv t) ! position t"
  have ok: "snd (adapted_template t row) = None"
    using Suc.prems(3) lt by (simp add: row_def)
  have nxt: "Next t = ((fst (adapted_template t row), row, None), t')"
    using Next_row [OF lt(2)] ok by (simp add: row_def t'_def)
  have "n = k - position t'"
    using Suc.hyps(2) by (simp add: t')
  moreover have "position t' \<le> k"
    using lt by (simp add: t')
  moreover have "k < length (rows (csv t'))"
    using Suc.prems(2) by (simp add: t')
  moreover have "\<forall>j. position t' \<le> j \<and> j < k \<longrightarrow>
      snd (adapted_template t' (rows (csv t') ! j)) = None"
    using Suc.prems(3) by (simp add: t')
  moreover have "snd (adapted_template t' (rows (csv t') ! k)) = Some e"
    using Suc.prems(4) by (simp add: t')
  ultimately have "ExecuteAll_loop (templateoutput @ [fst (adapted_template t row)]) (rws @ [row]) t' =
     (((templateoutput @ [fst (adapted_template t row)])
         @ map (\<lambda>row. fst (adapted_template t' row))
             (take (k - position t') (drop (position t') (rows (csv t')))),
       (rws @ [row]) @ take (k - position t') (drop (position t') (rows (csv t'))),
       if errors_Is e io_EOF then None else Some e),
      t'\<lparr>position := k + 1\<rparr>)"
    by (rule Suc.hyps(1))
  moreover have "take (k - position t) (drop (position t) (rows (csv t)))
      = row # take (k - (position t + 1)) (drop (position t + 1) (rows (csv t)))"
  proof -
    have "drop (position t) (rows (csv t)) = row # drop (position t + 1) (rows (csv t))"
      using lt by (simp add: row_def Cons_nth_drop_Suc)
    moreover have "k - position t = Suc (k - (position t + 1))"
      using lt by simp
    ultimately show ?thesis
      by simp
  qed
  moreover have "t'\<lparr>position := k + 1\<rparr> = t\<lparr>position := k + 1\<rparr>"
    by (simp add: t'_def)
  ultimately show ?case
    using nxt by (subst ExecuteAll_loop.simps) (simp add: t')
qed

lemma map_nth_upt_rows: "map (\<lambda>k. f (xs ! k)) [0..<length xs] = map f xs"
proof -
  have "map (\<lambda>k. f (xs ! k)) [0..<length xs] = map f (map ((!) xs) [0..<length xs])"
    by (simp add: comp_def)
  then show ?thesis
    by (simp only: map_nth)
qed

text \<open>
  Claim C2: on a renderer as \<open>NewTemplate\<close> builds it (cursor at zero) over a dataset of
  \<open>N\<close> rows, \<open>N\<close> calls of \<open>Next\<close> return the rows in dataset order, each with what the
  engine wrote for it and the engine's error; every later call returns the error that
  wraps \<open>io.EOF\<close> and nothing else; after \<open>n\<close> calls the cursor is \<open>min n N\<close>, so it never
  decreases and never exceeds \<open>N\<close>; the dataset is not changed.
\<close>

theorem Next_yields_rows_then_EOF:
  assumes "position t = 0"
  shows "fst (Next_times (length (rows (csv t))) t) =
      map (\<lambda>row. (fst (adapted_template t row), row, snd (adapted_template t row)))
        (rows (csv t))
    \<and> fst (Next (snd (Next_times (length (rows (csv t)) + m) t))) =
        ([], [], Some (Errorf_w io_EOF '': nothing else to do''))
    \<and> errors_Is (Errorf_w io_EOF '': nothing else to do'') io_EOF
    \<and> position (snd (Next_times n t)) = min n (length (rows (csv t)))
    \<and> csv (snd (Next_times n t)) = csv t"
proof -
  have inv: "position t \<le> length (rows (csv t))"
    using assms by simp
  have "map (\<lambda>k. if k < length (rows (csv t))
                then (fst (adapted_template t (rows (csv t) ! k)), rows (csv t) ! k,
                      snd (adapted_template t (rows (csv t) ! k)))
                else ([], [], Some (Errorf_w io_EOF '': nothing else to do'')))
        [0..<length (rows (csv t))]
      = map (\<lambda>k. (\<lambda>row. (fst (adapted_template t row), row, snd (adapted_template t row)))
          (rows (csv t) ! k)) [0..<length (rows (csv t))]"
    by simp
  also have "\<dots> = map (\<lambda>row. (fst (adapted_template t row), row, snd (adapted_template t row)))
      (rows (csv t))"
    by (rule map_nth_upt_rows [where xs = "rows (csv t)"])
  finally have first: "fst (Next_times (length (rows (csv t))) t) =
      map (\<lambda>row. (fst (adapted_template t row), row, snd (adapted_template t row)))
        (rows (csv t))"
    using Next_times_eq [OF inv, of "length (rows (csv t))"] assms by simp
  have "snd (Next_times (length (rows (csv t)) + m) t) = t\<lparr>position := length (rows (csv t))\<rparr>"
    using Next_times_eq [OF inv, of "length (rows (csv t)) + m"] assms by simp
  then have later: "fst (Next (snd (Next_times (length (rows (csv t)) + m) t))) =
      ([], [], Some (Errorf_w io_EOF '': nothing else to do''))"
    by (simp add: Next_exhausted)
  have "snd (Next_times n t) = t\<lparr>position := min n (length (rows (csv t)))\<rparr>"
    using Next_times_eq [OF inv, of n] assms by simp
  then have cursor: "position (snd (Next_times n t)) = min n (length (rows (csv t)))"
    "csv (snd (Next_times n t)) = csv t"
    by simp_all
  have "errors_Is (Errorf_w io_EOF '': nothing else to do'') io_EOF"
    by (simp add: errors_Is_def Errorf_w_def)
  with first later cursor show ?thesis
    by simp
qed

theorem Next_yields_rows_then_EOF_witness:
  "position (sample_renderer [[''a'', ''b'', ''c''], [''d'', ''e'', ''f'']]) = 0
   \<and> fst (Next_times 2 (sample_renderer [[''a'', ''b'', ''c''], [''d'', ''e'', ''f'']])) =
       [(''abc'', [''a'', ''b'', ''c''], None), (''def'', [''d'', ''e'', ''f''], None)]
   \<and> fst (Next (snd (Next_times (2 + 1)
         (sample_renderer [[''a'', ''b'', ''c''], [''d'', ''e'', ''f'']])))) =
       ([], [], Some (Err [io_EOF] ''EOF: nothing else to do''))
   \<and> position (snd (Next_times 5
         (sample_renderer [[''a'', ''b'', ''c''], [''d'', ''e'', ''f'']]))) = 2"
  using Next_yields_rows_then_EOF
    [of "sample_renderer [[''a'', ''b'', ''c''], [''d'', ''e'', ''f'']]" 1 5]
  by (simp add: sample_renderer_def sample_engine_def Errorf_w_def Next_def Let_def
    eval_nat_numeral)

text \<open>
  Claim C10: when the engine fails on the row under the cursor, \<open>Next\<close> returns the
  error with what was written and with the row, and the cursor has advanced by one; the
  next call works on the following row (or reports exhaustion when there is none), and
  after as many calls as rows remained every call reports exhaustion, whatever the
  engine did.
\<close>

theorem Next_failed_execution_consumes_row:
  assumes "position t < length (rows (csv t))"
    and "snd (adapted_template t (rows (csv t) ! position t)) = Some e"
  shows "Next t =
      ((fst (adapted_template t (rows (csv t) ! position t)), rows (csv t) ! position t, Some e),
       t\<lparr>position := position t + 1\<rparr>)
    \<and> fst (Next (snd (Next t))) =
        (if position t + 1 < length (rows (csv t)) then
           (fst (adapted_template t (rows (csv t) ! (position t + 1))),
            rows (csv t) ! (position t + 1),
            snd (adapted_template t (rows (csv t) ! (position t + 1))))
         else ([], [], Some (Errorf_w io_EOF '': nothing else to do'')))
    \<and> position (snd (Next_times (length (rows (csv t)) - position t) t)) = length (rows (csv t))
    \<and> fst (Next (snd (Next_times (length (rows (csv t)) - position t + m) t))) =
        ([], [], Some (Errorf_w io_EOF '': nothing else to do''))"
proof -
  have inv: "position t \<le> length (rows (csv t))"
    using assms(1) by simp
  have nxt: "Next t =
      ((fst (adapted_template t (rows (csv t) ! position t)), rows (csv t) ! position t, Some e),
       t\<lparr>position := position t + 1\<rparr>)"
    using Next_row [OF assms(1)] assms(2) by simp
  have following: "fst (Next (t\<lparr>position := position t + 1\<rparr>)) =
        (if position t + 1 < length (rows (csv t)) then
           (fst (adapted_template t (rows (csv t) ! (position t + 1))),
            rows (csv t) ! (position t + 1),
            snd (adapted_template t (rows (csv t) ! (position t + 1))))
         else ([], [], Some (Errorf_w io_EOF '': nothing else to do'')))"
    using Next_row [of "t\<lparr>position := position t + 1\<rparr>"]
      Next_exhausted [of "t\<lparr>position := position t + 1\<rparr>"]
    by (cases "position t + 1 < length (rows (csv t))") simp_all
  have "snd (Next_times (length (rows (csv t)) - position t + k) t)
      = t\<lparr>position := length (rows (csv t))\<rparr>" for k
    using Next_times_eq [OF inv, of "length (rows (csv t)) - position t + k"] inv by simp
  from this [of 0] this [of m] have "position (snd (Next_times (length (rows (csv t)) - position t) t))
      = length (rows (csv t))"
    and "fst (Next (snd (Next_times (length (rows (csv t)) - position t + m) t))) =
        ([], [], Some (Errorf_w io_EOF '': nothing else to do''))"
    by (simp_all add: Next_exhausted)
  with nxt following show ?thesis
    by simp
qed

theorem Next_failed_execution_consumes_row_witness:
  "Next (sample_renderer [[''bad'', ''b'', ''c''], [''d'', ''e'', ''f'']]) =
     ((''partial'', [''bad'', ''b'', ''c''],
       Some (Err [Foreign ''exec''] ''template: execution failed'')),
      (sample_renderer [[''bad'', ''b'', ''c''], [''d'', ''e'', ''f'']])\<lparr>position := 1\<rparr>)
   \<and> fst (Next (snd (Next (sample_renderer [[''bad'', ''b'', ''c''], [''d'', ''e'', ''f'']])))) =
       (''def'', [''d'', ''e'', ''f''], None)
   \<and> fst (Next (snd (Next_times 2
         (sample_renderer [[''bad'', ''b'', ''c''], [''d'', ''e'', ''f'']])))) =
       ([], [], Some (Err [io_EOF] ''EOF: nothing else to do''))"
  using Next_failed_execution_consumes_row
    [of "sample_renderer [[''bad'', ''b'', ''c''], [''d'', ''e'', ''f'']]"
      "Err [Foreign ''exec''] ''template: execution failed''" 0]
  by (simp add: sample_renderer_def sample_engine_def Errorf_w_def Next_def Let_def
    eval_nat_numeral)

text \<open>
  Claim C6: \<open>ExecuteAll\<close> calls \<open>Next\<close> until exhaustion. When the engine succeeds on
  every remaining row it returns their outputs and the rows in order with no error.
  When row \<open>k\<close> is the first on which the engine fails, with an error that does not wrap
  \<open>io.EOF\<close>, it returns the outputs and rows before \<open>k\<close> together with that error, and
  the cursor stands behind row \<open>k\<close>.
\<close>

theorem ExecuteAll_collects_until_error:
  assumes "position t \<le> length (rows (csv t))"
  shows "((\<forall>k. position t \<le> k \<and> k < length (rows (csv t)) \<longrightarrow>
            snd (adapted_template t (rows (csv t) ! k)) = None) \<longrightarrow>
          ExecuteAll t =
            ((map (\<lambda>row. fst (adapted_template t row)) (drop (position t) (rows (csv t))),
              drop (position t) (rows (csv t)), None),
             t\<lparr>position := length (rows (csv t))\<rparr>))
    \<and> (\<forall>k e. position t \<le> k \<and> k < length (rows (csv t))
          \<and> (\<forall>j. position t \<le> j \<and> j < k \<longrightarrow>
                snd (adapted_template t (rows (csv t) ! j)) = None)
          \<and> snd (adapted_template t (rows (csv t) ! k)) = Some e \<and> \<not> errors_Is e io_EOF \<longrightarrow>
          ExecuteAll t =
            ((map (\<lambda>row. fst (adapted_template t row))
                (take (k - position t) (drop (position t) (rows (csv t)))),
              take (k - position t) (drop (position t) (rows (csv t))), Some e),
             t\<lparr>position := k + 1\<rparr>))"
proof (intro conjI impI allI)
  assume "\<forall>k. position t \<le> k \<and> k < length (rows (csv t)) \<longrightarrow>
      snd (adapted_template t (rows (csv t) ! k)) = None"
  from ExecuteAll_loop_all_rendered [OF assms this, of "[]" "[]"]
  show "ExecuteAll t =
      ((map (\<lambda>row. fst (adapted_template t row)) (drop (position t) (rows (csv t))),
        drop (position t) (rows (csv t)), None),
       t\<lparr>position := length (rows (csv t))\<rparr>)"
    by (simp add: ExecuteAll_def)
next
  fix k e
  assume *: "position t \<le> k \<and> k < length (rows (csv t))
      \<and> (\<forall>j. position t \<le> j \<and> j < k \<longrightarrow> snd (adapted_template t (rows (csv t) ! j)) = None)
      \<and> snd (adapted_template t (rows (csv t) ! k)) = Some e \<and> \<not> errors_Is e io_EOF"
  then have "position t \<le> k" "k < length (rows (csv t))"
    "\<forall>j. position t \<le> j \<and> j < k \<longrightarrow> snd (adapted_template t (rows (csv t) ! j)) = None"
    "snd (adapted_template t (rows (csv t) ! k)) = Some e"
    by simp_all
  from ExecuteAll_loop_first_error [OF this, of "[]" "[]"] *
  show "ExecuteAll t =
      ((map (\<lambda>row. fst (adapted_template t row))
          (take (k - position t) (drop (position t) (rows (csv t)))),
        take (k - position t) (drop (position t) (rows (csv t))), Some e),
       t\<lparr>position := k + 1\<rparr>)"
    by (simp add: ExecuteAll_def)
qed

theorem ExecuteAll_collects_until_error_witness:
  "fst (ExecuteAll (sample_renderer [[''a'', ''b'', ''c''], [''d'', ''e'', ''f'']])) =
     ([''abc'', ''def''], [[''a'', ''b'', ''c''], [''d'', ''e'', ''f'']], None)
   \<and> fst (ExecuteAll
        (sample_renderer [[''a'', ''b'', ''c''], [''bad'', ''e'', ''f''], [''g'', ''h'', ''i'']])) =
       ([''abc''], [[''a'', ''b'', ''c'']],
        Some (Err [Foreign ''exec''] ''template: execution failed''))
   \<and> position (snd (ExecuteAll
        (sample_renderer [[''a'', ''b'', ''c''], [''bad'', ''e'', ''f''], [''g'', ''h'', ''i'']])))
       = 2"
proof -
  have all_ok: "\<forall>k. position (sample_renderer [[''a'', ''b'', ''c''], [''d'', ''e'', ''f'']]) \<le> k
      \<and> k < length (rows (csv (sample_renderer [[''a'', ''b'', ''c''], [''d'', ''e'', ''f'']])))
      \<longrightarrow> snd (adapted_template (sample_renderer [[''a'', ''b'', ''c''], [''d'', ''e'', ''f'']])
            (rows (csv (sample_renderer [[''a'', ''b'', ''c''], [''d'', ''e'', ''f'']])) ! k)) = None"
    by (simp add: sample_renderer_def sample_engine_def less_Suc_eq numeral_2_eq_2)
  have before: "\<forall>j. position (sample_renderer
          [[''a'', ''b'', ''c''], [''bad'', ''e'', ''f''], [''g'', ''h'', ''i'']]) \<le> j \<and> j < 1
      \<longrightarrow> snd (adapted_template (sample_renderer
              [[''a'', ''b'', ''c''], [''bad'', ''e'', ''f''], [''g'', ''h'', ''i'']])
            (rows (csv (sample_renderer
              [[''a'', ''b'', ''c''], [''bad'', ''e'', ''f''], [''g'', ''h'', ''i'']])) ! j)) = None"
    by (simp add: sample_renderer_def sample_engine_def)
  show ?thesis
    using ExecuteAll_collects_until_error
        [of "sample_renderer [[''a'', ''b'', ''c''], [''d'', ''e'', ''f'']]"]
      ExecuteAll_collects_until_error
        [of "sample_renderer
          [[''a'', ''b'', ''c''], [''bad'', ''e'', ''f''], [''g'', ''h'', ''i'']]",
          THEN conjunct2, rule_format, of 1 "Err [Foreign ''exec''] ''template: execution failed''"]
      all_ok before
    by (simp add: sample_renderer_def sample_engine_def errors_Is_def)
qed

section \<open>The scenario of the package's test\<close>

lemma test_scenario_evaluated:
  "(case NewTemplate pdqsort text_template_Parse ''test.template'' ''text/plain'' TheTestTemplate
          test_dataset of
      (Returns t, c) \<Rightarrow>
        fst (Next t) =
          (TheTestCSVTemplateResults,
           [''sender@example.com'', ''recipient@example.com'', ''group name''], None)
        \<and> fst (Next (snd (Next t))) = ([], [], Some (Err [io_EOF] ''EOF: nothing else to do''))
    | _ \<Rightarrow> False)"
  by code_simp

text \<open>
  Claim C9, for every \<open>pdqsort\<close>: \<open>TheTestCSV\<close> parses to the dataset with the header
  \<open>SenderName,RecipientName,GroupName\<close> and the single row of the test; building the
  template \<open>TheTestTemplate\<close> over it succeeds, the first \<open>Next\<close> returns exactly
  \<open>TheTestCSVTemplateResults\<close> with the row and no error, and the second \<open>Next\<close> reports
  exhaustion. The readers are the fragments of \<open>encoding/csv\<close> and \<open>text/template\<close>
  modelled above.
\<close>

theorem test_scenario_renders:
  "NewCSV csv_plain_Read csv_plain_ReadAll ''test.csv'' ''text/csv'' TheTestCSV = Returns test_dataset
   \<and> (\<exists>t c. NewTemplate pdqsort text_template_Parse ''test.template'' ''text/plain'' TheTestTemplate
          test_dataset = (Returns t, c)
        \<and> fst (Next t) =
            (TheTestCSVTemplateResults,
             [''sender@example.com'', ''recipient@example.com'', ''group name''], None)
        \<and> fst (Next (snd (Next t))) = ([], [], Some (Err [io_EOF] ''EOF: nothing else to do'')))"
proof
  show "NewCSV csv_plain_Read csv_plain_ReadAll ''test.csv'' ''text/csv'' TheTestCSV
      = Returns test_dataset"
    by (rule test_dataset_parsed)
next
  obtain res c where nt: "NewTemplate pdqsort text_template_Parse ''test.template'' ''text/plain''
      TheTestTemplate test_dataset = (res, c)"
    by (cases "NewTemplate pdqsort text_template_Parse ''test.template'' ''text/plain''
      TheTestTemplate test_dataset")
  with test_scenario_evaluated [of pdqsort] obtain t where "res = Returns t"
    by (cases res) simp_all
  with nt test_scenario_evaluated [of pdqsort]
  show "\<exists>t c. NewTemplate pdqsort text_template_Parse ''test.template'' ''text/plain'' TheTestTemplate
          test_dataset = (Returns t, c)
        \<and> fst (Next t) =
            (TheTestCSVTemplateResults,
             [''sender@example.com'', ''recipient@example.com'', ''group name''], None)
        \<and> fst (Next (snd (Next t))) = ([], [], Some (Err [io_EOF] ''EOF: nothing else to do''))"
    by simp
qed

end
